theory Spec2Isabelle
  imports Complex_Main
begin

section \<open>Triplet approximator of \<open>moltemplate_helpers.py\<close>\<close>

text \<open>
  The development embeds the three functions \<open>unique_enum\<close>, \<open>cubicity\<close> and
  \<open>decompose\<close> of \<open>src/moltemplate_helpers.py\<close>.

  Python integers are \<^typ>\<open>int\<close>. A Python float is an IEEE 754 binary64 number: a finite
  one is modelled by the real number it denotes (the two zeros are identified), and every
  arithmetic operation rounds its exact result to the nearest double, a tie to the even
  significand, overflowing to an infinity. Exceptions are values of \<open>py_error\<close>; a loop that
  the source writes as \<open>while\<close> without a bound is a \<open>partial_function\<close> in the option monad,
  \<open>None\<close> standing for a run that never returns.
\<close>

subsection \<open>Values and errors\<close>

text \<open>
  \<open>LowerExceedsUpper\<close> is \<open>Exception("Lower bound exceeds upper bound")\<close>,
  \<open>BoundsNotInteger\<close> is \<open>Exception("Lower and upper bound must be integers")\<close>; the
  others are the interpreter's own exceptions.
\<close>

datatype py_error =
  LowerExceedsUpper | BoundsNotInteger | IndexError | OverflowError | TypeError
  | ValueError | ZeroDivisionError

text \<open>A numeric argument as the dynamically typed source can receive it: an \<open>int\<close> or a
  (finite) \<open>float\<close>.\<close>

datatype py_num = PyInt int | PyFloat real

fun num_val :: "py_num \<Rightarrow> real" where
  "num_val (PyInt i) = of_int i"
| "num_val (PyFloat x) = x"

fun isinstance_int :: "py_num \<Rightarrow> bool" where
  "isinstance_int (PyInt i) = True"
| "isinstance_int (PyFloat x) = False"

text \<open>The integer carried by a bound; the second equation is never reached, because
  \<open>unique_enum\<close> reads its bounds only after both passed \<open>isinstance_int\<close>.\<close>

fun the_int :: "py_num \<Rightarrow> int" where
  "the_int (PyInt i) = i"
| "the_int (PyFloat x) = \<lfloor>x\<rfloor>"

subsection \<open>The generator \<open>unique_enum\<close>\<close>

text \<open>Lines 40--43: the two checks, in the order of the source.\<close>

definition check_bounds :: "py_num \<Rightarrow> py_num \<Rightarrow> py_error option" where
  "check_bounds lower_bound upper_bound =
     (if num_val lower_bound > num_val upper_bound then Some LowerExceedsUpper
      else if \<not> isinstance_int lower_bound \<or> \<not> isinstance_int upper_bound
        then Some BoundsNotInteger
      else None)"

text \<open>
  Lines 54--56, the overflow loop \<open>while current_index[i] > upper_bound: i += 1;
  current_index[i] += 1\<close>. Reading or writing past the end of the list raises \<open>IndexError\<close>.
  The result is the list and the final \<open>i\<close>.
\<close>

function overflow_loop :: "int \<Rightarrow> int list \<Rightarrow> nat \<Rightarrow> py_error + (int list \<times> nat)" where
  "overflow_loop upper_bound current_index i =
     (if length current_index \<le> i then Inl IndexError
      else if current_index ! i > upper_bound then
        (if length current_index \<le> Suc i then Inl IndexError
         else overflow_loop upper_bound
                (current_index[Suc i := current_index ! Suc i + 1]) (Suc i))
      else Inr (current_index, i))"
  by pat_completeness auto
termination
  by (relation "measure (\<lambda>(ub, cur, i). length cur - i)") auto

declare overflow_loop.simps [simp del]

text \<open>Lines 57--58: \<open>for j in range(i): current_index[j] = current_index[i]\<close>.\<close>

definition reset_lower :: "int list \<Rightarrow> nat \<Rightarrow> int list" where
  "reset_lower current_index i =
     fold (\<lambda>j cur. cur[j := cur ! i]) [0..<i] current_index"

text \<open>Lines 52--58: one pass through the body of the outer \<open>while\<close>, up to the \<open>yield\<close>.\<close>

definition advance :: "int \<Rightarrow> int list \<Rightarrow> py_error + int list" where
  "advance upper_bound current_index =
     (if current_index = [] then Inl IndexError
      else case overflow_loop upper_bound
                  (current_index[0 := current_index ! 0 + 1]) 0 of
             Inl e \<Rightarrow> Inl e
           | Inr (cur, i) \<Rightarrow> Inr (reset_lower cur i))"

text \<open>
  Lines 51--60: the outer loop. \<open>yielded\<close> collects the value of \<open>current_index\<close> at each
  \<open>yield\<close> (the source yields the one list object it keeps mutating; the model records what
  the consumer sees at the moment of the yield). The result is the list of yields together
  with the exception that ended the generator, if any.
\<close>

partial_function (option) enum_loop ::
  "int \<Rightarrow> int list \<Rightarrow> int list \<Rightarrow> int list list
     \<Rightarrow> (int list list \<times> py_error option) option" where
  "enum_loop upper_bound upper_shape current_index yielded =
     (if current_index = upper_shape then Some (yielded, None)
      else case advance upper_bound current_index of
             Inl e \<Rightarrow> Some (yielded, Some e)
           | Inr cur \<Rightarrow> enum_loop upper_bound upper_shape cur (yielded @ [cur]))"

declare enum_loop.simps [code]

text \<open>\<open>[x]*length\<close> is the empty list for a negative \<open>length\<close>, hence \<^const>\<open>nat\<close>.\<close>

definition unique_enum ::
  "py_num \<Rightarrow> py_num \<Rightarrow> int \<Rightarrow> (int list list \<times> py_error option) option" where
  "unique_enum lower_bound upper_bound len =
     (case check_bounds lower_bound upper_bound of
        Some e \<Rightarrow> Some ([], Some e)
      | None \<Rightarrow>
          let current_index = replicate (nat len) (the_int lower_bound);
              upper_shape = replicate (nat len) (the_int upper_bound)
          in enum_loop (the_int upper_bound) upper_shape current_index [current_index])"

subsection \<open>Double-precision arithmetic\<close>

text \<open>Python 3's \<open>round\<close> on a finite float: to the nearest integer, a tie to the even one.\<close>

definition py_round :: "real \<Rightarrow> int" where
  "py_round x =
     (let f = \<lfloor>x\<rfloor>; d = x - of_int f
      in if d < 1 / 2 then f
         else if d > 1 / 2 then f + 1
         else if even f then f else f + 1)"

definition pow2 :: "int \<Rightarrow> real" where
  "pow2 k = (if 0 \<le> k then 2 ^ nat k else 1 / 2 ^ nat (- k))"

text \<open>The binary exponent of a positive real \<open>a\<close>, the \<open>e\<close> with \<open>2^e \<le> a < 2^(e+1)\<close>, found
  by halving from above and doubling from below.\<close>

function bexp_up :: "real \<Rightarrow> int" where
  "bexp_up a = (if a < 2 then 0 else bexp_up (a / 2) + 1)"
  by pat_completeness auto
termination
proof (relation "measure (\<lambda>a. nat \<lceil>a\<rceil>)")
  show "wf (measure (\<lambda>a. nat \<lceil>a\<rceil>))" by simp
next
  fix a :: real
  assume "\<not> a < 2"
  then have "\<lceil>a / 2\<rceil> < \<lceil>a\<rceil>" "0 < \<lceil>a\<rceil>"
    by linarith+
  then show "(a / 2, a) \<in> measure (\<lambda>a. nat \<lceil>a\<rceil>)"
    by simp
qed

function bexp_down :: "real \<Rightarrow> int" where
  "bexp_down a = (if a \<le> 0 \<or> 1 \<le> a then 0 else bexp_down (2 * a) - 1)"
  by pat_completeness auto
termination
proof (relation "measure (\<lambda>a. nat \<lceil>1 / a\<rceil>)")
  show "wf (measure (\<lambda>a. nat \<lceil>1 / a\<rceil>))" by simp
next
  fix a :: real
  assume "\<not> (a \<le> 0 \<or> 1 \<le> a)"
  then have a: "0 < a" "a < 1" by simp_all
  define y where "y = 1 / a"
  have "1 < y" using a by (simp add: y_def)
  then have "2 \<le> \<lceil>y\<rceil>" "y \<le> of_int \<lceil>y\<rceil>"
    by linarith+
  then have "y / 2 \<le> of_int \<lceil>y\<rceil> - 1"
    by linarith
  then have c: "\<lceil>y / 2\<rceil> < \<lceil>y\<rceil>"
    by (simp add: ceiling_less_iff)
  have e: "1 / (2 * a) = y / 2"
    by (simp add: y_def)
  have "\<lceil>1 / (2 * a)\<rceil> < \<lceil>1 / a\<rceil>"
    using c unfolding e y_def .
  moreover have "0 < \<lceil>1 / a\<rceil>"
    using \<open>2 \<le> \<lceil>y\<rceil>\<close> unfolding y_def by linarith
  ultimately have "nat \<lceil>1 / (2 * a)\<rceil> < nat \<lceil>1 / a\<rceil>"
    by linarith
  then show "(2 * a, a) \<in> measure (\<lambda>a. nat \<lceil>1 / a\<rceil>)"
    unfolding measure_def inv_image_def by simp
qed

declare bexp_up.simps [simp del] bexp_down.simps [simp del]

definition bexp :: "real \<Rightarrow> int" where
  "bexp a = (if 1 \<le> a then bexp_up a else bexp_down a)"

text \<open>
  Rounding to binary64, the exponent range unbounded above: the spacing \<open>u\<close> of the doubles
  around \<open>x\<close> is \<open>2^(e-52)\<close> for the binary exponent \<open>e\<close> of \<open>x\<close>, and \<open>2^(-1074)\<close> in the
  subnormal range; \<open>x\<close> goes to the nearest multiple of \<open>u\<close>, a tie to the even multiple.
\<close>

definition fl :: "real \<Rightarrow> real" where
  "fl x = (if x = 0 then 0
           else let e = max (bexp \<bar>x\<bar>) (- 1022); u = pow2 (e - 52)
                in of_int (py_round (x / u)) * u)"

datatype py_float = Finite real | PosInf | NegInf | NaN

text \<open>The float that an operation with the exact result \<open>x\<close> delivers: the rounded value,
  or an infinity once the rounded value reaches \<open>2^1024\<close>.\<close>

definition round_result :: "real \<Rightarrow> py_float" where
  "round_result x =
     (let r = fl x
      in if 2 ^ 1024 \<le> r then PosInf else if r \<le> - (2 ^ 1024) then NegInf else Finite r)"

text \<open>Subtraction and multiplication are only applied to finite operands.\<close>

definition fsub :: "real \<Rightarrow> real \<Rightarrow> py_float" where
  "fsub a b = round_result (a - b)"

definition fmul :: "real \<Rightarrow> real \<Rightarrow> py_float" where
  "fmul a b = round_result (a * b)"

fun fabs :: "py_float \<Rightarrow> py_float" where
  "fabs (Finite r) = Finite \<bar>r\<bar>"
| "fabs PosInf = PosInf"
| "fabs NegInf = PosInf"
| "fabs NaN = NaN"

fun fadd :: "py_float \<Rightarrow> py_float \<Rightarrow> py_float" where
  "fadd (Finite a) (Finite b) = round_result (a + b)"
| "fadd (Finite a) PosInf = PosInf"
| "fadd (Finite a) NegInf = NegInf"
| "fadd (Finite a) NaN = NaN"
| "fadd PosInf (Finite b) = PosInf"
| "fadd PosInf PosInf = PosInf"
| "fadd PosInf NegInf = NaN"
| "fadd PosInf NaN = NaN"
| "fadd NegInf (Finite b) = NegInf"
| "fadd NegInf PosInf = NaN"
| "fadd NegInf NegInf = NegInf"
| "fadd NegInf NaN = NaN"
| "fadd NaN y = NaN"

fun fless :: "py_float \<Rightarrow> py_float \<Rightarrow> bool" where
  "fless (Finite a) (Finite b) = (a < b)"
| "fless (Finite a) PosInf = True"
| "fless (Finite a) NegInf = False"
| "fless (Finite a) NaN = False"
| "fless PosInf y = False"
| "fless NegInf (Finite b) = True"
| "fless NegInf PosInf = True"
| "fless NegInf NegInf = False"
| "fless NegInf NaN = False"
| "fless NaN y = False"

text \<open>\<open>round(x)\<close> on a float: \<open>OverflowError\<close> on an infinity, \<open>ValueError\<close> on a NaN.\<close>

fun float_round :: "py_float \<Rightarrow> py_error + int" where
  "float_round (Finite r) = Inr (py_round r)"
| "float_round PosInf = Inl OverflowError"
| "float_round NegInf = Inl OverflowError"
| "float_round NaN = Inl ValueError"

text \<open>The least magnitude of an integer that does not convert to a double: the midpoint
  between the largest double and \<open>2^1024\<close> rounds to even, that is up.\<close>

definition float_int_limit :: int where
  "float_int_limit = 2 ^ 1024 - 2 ^ 970"

text \<open>The conversion of an \<open>int\<close> operand of a float operation.\<close>

definition int_to_float :: "int \<Rightarrow> py_error + real" where
  "int_to_float i =
     (if \<bar>i\<bar> \<ge> float_int_limit then Inl OverflowError else Inr (fl (of_int i)))"

text \<open>True division \<open>a / b\<close> of two \<open>int\<close>s: the quotient correctly rounded, \<open>OverflowError\<close>
  when it is too large for a float.\<close>

definition true_divide :: "int \<Rightarrow> int \<Rightarrow> py_error + real" where
  "true_divide a b =
     (if b = 0 then Inl ZeroDivisionError
      else let r = fl (of_int a / of_int b)
           in if 2 ^ 1024 \<le> \<bar>r\<bar> then Inl OverflowError else Inr r)"

subsection \<open>\<open>cubicity\<close>\<close>

text \<open>One term \<open>abs(sum(triplet)/3 - triplet[i])\<close> of lines 83--84, evaluated left to right:
  the division, the index, the conversion of the \<open>int\<close> element, the subtraction.\<close>

definition deviation :: "int list \<Rightarrow> nat \<Rightarrow> py_error + py_float" where
  "deviation triplet i =
     (case true_divide (sum_list triplet) 3 of
        Inl e \<Rightarrow> Inl e
      | Inr m \<Rightarrow>
          if length triplet \<le> i then Inl IndexError
          else (case int_to_float (triplet ! i) of
                  Inl e \<Rightarrow> Inl e
                | Inr t \<Rightarrow> Inr (fabs (fsub m t))))"

text \<open>Lines 83--85: the terms for the indices 0, 2 and 2, added from the left.\<close>

definition cubicity :: "int list \<Rightarrow> py_error + py_float" where
  "cubicity triplet =
     (case deviation triplet 0 of
        Inl e \<Rightarrow> Inl e
      | Inr d0 \<Rightarrow>
          (case deviation triplet 2 of
             Inl e \<Rightarrow> Inl e
           | Inr d2 \<Rightarrow>
               (case deviation triplet 2 of
                  Inl e \<Rightarrow> Inl e
                | Inr d2' \<Rightarrow> Inr (fadd (fadd d0 d2) d2'))))"

subsection \<open>\<open>decompose\<close>\<close>

text \<open>
  \<open>number**(1/3)\<close> of line 109: \<open>1/3\<close> is the double nearest to one third, the integer is
  converted to a float (\<open>OverflowError\<close> outside the range of a double), and the power is
  taken correctly rounded. A negative base gives a complex number, on which \<open>round\<close> raises
  \<open>TypeError\<close>.
\<close>

definition pow_third :: "int \<Rightarrow> py_error + real" where
  "pow_third number =
     (case int_to_float number of
        Inl e \<Rightarrow> Inl e
      | Inr x \<Rightarrow> if x < 0 then Inl TypeError else Inr (fl (x powr fl (1 / 3))))"

text \<open>Lines 110--114, from the rounded root to the pair \<open>(lower, upper)\<close>; \<open>0.5\<close> and \<open>1.7\<close>
  are the doubles nearest to these decimals.\<close>

definition search_bounds :: "int \<Rightarrow> py_error + (int \<times> int)" where
  "search_bounds rt =
     (case (if rt \<le> 5 then Inr 0
            else (case int_to_float rt of
                    Inl e \<Rightarrow> Inl e
                  | Inr r \<Rightarrow>
                      (case float_round (fmul r (fl 0.5)) of
                         Inl e \<Rightarrow> Inl e
                       | Inr h \<Rightarrow> Inr (min h (rt - 5))))) of
        Inl e \<Rightarrow> Inl e
      | Inr lower \<Rightarrow>
          (case int_to_float rt of
             Inl e \<Rightarrow> Inl e
           | Inr r \<Rightarrow>
               (case float_round (fmul r (fl 1.7)) of
                  Inl e \<Rightarrow> Inl e
                | Inr s \<Rightarrow> Inr (lower, max s (rt + 5)))))"

text \<open>Lines 120--127: the body of the \<open>for\<close> loop on one candidate; \<open>best\<close> is the pair
  \<open>(min_factors, min_error)\<close>.\<close>

definition search_step ::
  "int \<Rightarrow> int list \<times> int \<Rightarrow> int list \<Rightarrow> py_error + (int list \<times> int)" where
  "search_step number best factors =
     (case best of (min_factors, min_error) \<Rightarrow>
        if length factors < 3 then Inl IndexError
        else let error = \<bar>number - factors ! 0 * factors ! 1 * factors ! 2\<bar>
             in if min_error < error then Inr (min_factors, min_error)
                else if min_error > error then Inr (factors, error)
                else (case cubicity factors of
                        Inl e \<Rightarrow> Inl e
                      | Inr c \<Rightarrow>
                         (case cubicity min_factors of
                            Inl e \<Rightarrow> Inl e
                          | Inr c_min \<Rightarrow>
                              if fless c c_min then Inr (factors, min_error)
                              else Inr (min_factors, min_error))))"

fun search_loop ::
  "int \<Rightarrow> int list list \<Rightarrow> int list \<times> int \<Rightarrow> py_error + (int list \<times> int)" where
  "search_loop number [] best = Inr best"
| "search_loop number (factors # rest) best =
     (case search_step number best factors of
        Inl e \<Rightarrow> Inl e
      | Inr best' \<Rightarrow> search_loop number rest best')"

text \<open>Lines 117--130: the search over the yields of the generator. An exception of the
  loop body comes before one that ends the generator.\<close>

definition search ::
  "int \<Rightarrow> int \<Rightarrow> int \<Rightarrow> (py_error + (int list \<times> int)) option" where
  "search number lower upper =
     (let min_error = \<bar>number - lower ^ 3\<bar>;
          min_factors = replicate 3 lower
      in case unique_enum (PyInt lower) (PyInt upper) 3 of
           None \<Rightarrow> None
         | Some (yielded, raised) \<Rightarrow>
             (case search_loop number yielded (min_factors, min_error) of
                Inl e \<Rightarrow> Some (Inl e)
              | Inr best \<Rightarrow>
                  (case raised of
                     Some e \<Rightarrow> Some (Inl e)
                   | None \<Rightarrow> Some (Inr best))))"

text \<open>Lines 109--130 once the power has the value \<open>x\<close>.\<close>

definition decompose_from :: "real \<Rightarrow> int \<Rightarrow> (py_error + (int list \<times> int)) option" where
  "decompose_from x number =
     (let rt = py_round x
      in case search_bounds rt of
           Inl e \<Rightarrow> Some (Inl e)
         | Inr (lower, upper) \<Rightarrow> search number lower upper)"

definition decompose :: "int \<Rightarrow> (py_error + (int list \<times> int)) option" where
  "decompose number =
     (case pow_third number of
        Inl e \<Rightarrow> Some (Inl e)
      | Inr x \<Rightarrow> decompose_from x number)"

subsection \<open>Auxiliary functions of the proofs\<close>

text \<open>What the specification calls rounding: \<open>r\<close> is an integer nearest to \<open>x\<close>, and the
  even one of the two when \<open>x\<close> lies halfway.\<close>

definition rounds_to :: "real \<Rightarrow> int \<Rightarrow> bool" where
  "rounds_to x r \<longleftrightarrow> \<bar>x - of_int r\<bar> \<le> 1 / 2 \<and> (\<bar>x - of_int r\<bar> = 1 / 2 \<longrightarrow> even r)"

text \<open>A float that is zero, positive or plus infinity.\<close>

fun is_nonneg :: "py_float \<Rightarrow> bool" where
  "is_nonneg (Finite r) = (0 \<le> r)"
| "is_nonneg PosInf = True"
| "is_nonneg NegInf = False"
| "is_nonneg NaN = False"

text \<open>The approximation error \<open>|number - a*b*c|\<close> of a candidate.\<close>

definition approx_error :: "int \<Rightarrow> int list \<Rightarrow> int" where
  "approx_error number factors = \<bar>number - factors ! 0 * factors ! 1 * factors ! 2\<bar>"

text \<open>The closed form of the yields: all sequences of length \<open>k\<close> over \<open>[lo, hi]\<close> in which
  no element exceeds the one before it, the last position varying slowest.\<close>

fun combos :: "nat \<Rightarrow> int \<Rightarrow> int \<Rightarrow> int list list" where
  "combos 0 lo hi = [[]]"
| "combos (Suc k) lo hi = concat (map (\<lambda>v. map (\<lambda>p. p @ [v]) (combos k v hi)) [lo..hi])"

section \<open>The odometer step\<close>

lemma nth_replicate_front: "i < n \<Longrightarrow> (replicate n x @ ys) ! i = x"
  by (simp add: nth_append)

lemma overflow_step:
  "Suc i < length c \<Longrightarrow> hi < c ! i \<Longrightarrow>
   overflow_loop hi c i = overflow_loop hi (c[Suc i := c ! Suc i + 1]) (Suc i)"
  by (subst overflow_loop.simps) simp

lemma overflow_stop:
  "i < length c \<Longrightarrow> c ! i \<le> hi \<Longrightarrow> overflow_loop hi c i = Inr (c, i)"
  by (subst overflow_loop.simps) simp

text \<open>A carry that entered at position \<open>i\<close> runs through \<open>m\<close> further positions holding the
  upper bound and stops on the first position below it.\<close>

lemma overflow_carry:
  "v < hi \<Longrightarrow>
   overflow_loop hi (replicate (Suc i) (hi + 1) @ replicate m hi @ v # rest) i
     = Inr (replicate (Suc i + m) (hi + 1) @ (v + 1) # rest, Suc i + m)"
proof (induction m arbitrary: i)
  case 0
  let ?c = "replicate (Suc i) (hi + 1) @ v # rest"
  have "overflow_loop hi ?c i = overflow_loop hi (?c[Suc i := ?c ! Suc i + 1]) (Suc i)"
    by (rule overflow_step) (simp_all add: nth_replicate_front del: replicate_Suc)
  also have "?c[Suc i := ?c ! Suc i + 1] = replicate (Suc i) (hi + 1) @ (v + 1) # rest"
    by (simp add: nth_append list_update_append)
  also have "overflow_loop hi \<dots> (Suc i) = Inr (replicate (Suc i) (hi + 1) @ (v + 1) # rest, Suc i)"
    using 0 by (intro overflow_stop) (simp_all add: nth_append)
  finally show ?case by simp
next
  case (Suc m)
  let ?c = "replicate (Suc i) (hi + 1) @ replicate (Suc m) hi @ v # rest"
  have "overflow_loop hi ?c i = overflow_loop hi (?c[Suc i := ?c ! Suc i + 1]) (Suc i)"
    by (rule overflow_step) (simp_all add: nth_replicate_front del: replicate_Suc)
  also have "?c[Suc i := ?c ! Suc i + 1]
             = replicate (Suc (Suc i)) (hi + 1) @ replicate m hi @ v # rest"
    by (simp add: nth_append list_update_append replicate_app_Cons_same)
  also have "overflow_loop hi \<dots> (Suc i)
             = Inr (replicate (Suc (Suc i) + m) (hi + 1) @ (v + 1) # rest, Suc (Suc i) + m)"
    using Suc.prems by (rule Suc.IH)
  finally show ?case by simp
qed

lemma reset_fold:
  "k \<le> i \<Longrightarrow> i < length c \<Longrightarrow>
   fold (\<lambda>j cur. cur[j := cur ! i]) [0..<k] c = replicate k (c ! i) @ drop k c"
proof (induction k)
  case 0
  then show ?case by simp
next
  case (Suc k)
  have d: "drop k c = c ! k # drop (Suc k) c"
    using Suc.prems by (simp add: Cons_nth_drop_Suc)
  have "(replicate k (c ! i) @ drop k c) ! i = c ! i"
    using Suc.prems by (simp add: nth_append)
  then show ?case
    using Suc by (simp add: d replicate_app_Cons_same list_update_append)
qed

lemma reset_lower_eq:
  "i < length c \<Longrightarrow> reset_lower c i = replicate i (c ! i) @ drop i c"
  by (simp add: reset_lower_def reset_fold)

text \<open>One pass of the loop body on a state whose first \<open>j\<close> positions are at the upper
  bound: position \<open>j\<close> is incremented and the positions before it are set to its new value.\<close>

lemma advance_carry:
  assumes "v < hi"
  shows "advance hi (replicate j hi @ v # rest) = Inr (replicate (Suc j) (v + 1) @ rest)"
proof (cases j)
  case 0
  then show ?thesis
    using assms overflow_stop [of 0 "(v + 1) # rest" hi]
    by (simp add: advance_def reset_lower_def)
next
  case (Suc m)
  have "overflow_loop hi ((hi + 1) # replicate m hi @ v # rest) 0
        = Inr (replicate (Suc m) (hi + 1) @ (v + 1) # rest, Suc m)"
    using overflow_carry [OF assms, of 0 m rest] by simp
  moreover have "reset_lower (replicate (Suc m) (hi + 1) @ (v + 1) # rest) (Suc m)
        = replicate (Suc m) (v + 1) @ (v + 1) # rest"
    by (subst reset_lower_eq) (simp_all add: nth_append del: replicate_Suc)
  ultimately show ?thesis
    using Suc by (simp add: advance_def replicate_app_Cons_same)
qed

section \<open>The yields in closed form\<close>

lemma combos_nonempty:
  "lo \<le> hi \<Longrightarrow> combos k lo hi \<noteq> [] \<and> hd (combos k lo hi) = replicate k lo"
proof (induction k arbitrary: lo)
  case 0
  then show ?case by simp
next
  case (Suc k)
  have "[lo..hi] = lo # [lo + 1..hi]"
    using Suc.prems by (simp add: upto_rec1)
  then show ?case
    using Suc by (simp add: hd_map replicate_append_same)
qed

lemma combos_split:
  "lo \<le> hi \<Longrightarrow>
   combos (Suc k) lo hi = map (\<lambda>p. p @ [lo]) (combos k lo hi) @ combos (Suc k) (lo + 1) hi"
  by (simp add: upto_rec1)

lemma combos_single: "combos k hi hi = [replicate k hi]"
  by (induction k) (simp_all add: replicate_append_same)

lemma not_upper_shape: "(v::int) < hi \<Longrightarrow> replicate k hi @ v # rest \<noteq> replicate n hi"
proof
  assume "v < hi" and e: "replicate k hi @ v # rest = replicate n hi"
  have "v \<in> set (replicate k hi @ v # rest)" by simp
  then have "v \<in> set (replicate n hi)" by (simp only: e)
  then show False using \<open>v < hi\<close> by auto
qed

text \<open>Started on a state whose first \<open>k\<close> positions all hold \<open>v\<close>, the loop yields the
  remaining sequences of \<open>combos k v hi\<close> on those positions, the others untouched, and
  reaches the state whose first \<open>k\<close> positions hold the upper bound.\<close>

lemma enum_loop_prefix:
  "v \<le> hi \<Longrightarrow>
   enum_loop hi (replicate n hi) (replicate k v @ rest) acc
   = enum_loop hi (replicate n hi) (replicate k hi @ rest)
       (acc @ map (\<lambda>p. p @ rest) (tl (combos k v hi)))"
proof (induction k arbitrary: v rest acc)
  case 0
  then show ?case by simp
next
  case (Suc k)
  from Suc.prems show ?case
  proof (induction "nat (hi - v)" arbitrary: v acc)
    case 0
    then have [simp]: "v = hi" by simp
    have "enum_loop hi (replicate n hi) (replicate k hi @ hi # rest) acc
          = enum_loop hi (replicate n hi) (replicate k hi @ hi # rest)
              (acc @ map (\<lambda>p. p @ hi # rest) (tl (combos k hi hi)))"
      by (rule Suc.IH) simp
    then show ?case
      by (simp add: replicate_app_Cons_same map_tl comp_def)
  next
    case (Suc d)
    then have lt: "v < hi" by simp
    let ?acc1 = "acc @ map (\<lambda>p. p @ v # rest) (tl (combos k v hi))"
    let ?next = "replicate (Suc k) (v + 1) @ rest"
    have "enum_loop hi (replicate n hi) (replicate (Suc k) v @ rest) acc
          = enum_loop hi (replicate n hi) (replicate k v @ v # rest) acc"
      by (simp add: replicate_app_Cons_same)
    also have "\<dots> = enum_loop hi (replicate n hi) (replicate k hi @ v # rest) ?acc1"
      using Suc.prems by (intro Suc.IH)
    also have "\<dots> = enum_loop hi (replicate n hi) ?next (?acc1 @ [?next])"
      using not_upper_shape [OF lt, of k rest n] advance_carry [OF lt, of k rest]
      by (subst enum_loop.simps) simp
    also have "\<dots> = enum_loop hi (replicate n hi) (replicate (Suc k) hi @ rest)
                     ((?acc1 @ [?next]) @ map (\<lambda>p. p @ rest) (tl (combos (Suc k) (v + 1) hi)))"
      using Suc.hyps(2) lt by (intro Suc.hyps(1)) simp_all
    also have "(?acc1 @ [?next]) @ map (\<lambda>p. p @ rest) (tl (combos (Suc k) (v + 1) hi))
               = acc @ map (\<lambda>p. p @ rest) (tl (combos (Suc k) v hi))"
    proof -
      have ne: "combos k v hi \<noteq> []" "combos (Suc k) (v + 1) hi \<noteq> []"
        "hd (combos (Suc k) (v + 1) hi) = replicate (Suc k) (v + 1)"
        using combos_nonempty [of v hi k] combos_nonempty [of "v + 1" hi "Suc k"] lt
        by simp_all
      have "tl (combos (Suc k) v hi)
            = map (\<lambda>p. p @ [v]) (tl (combos k v hi)) @ combos (Suc k) (v + 1) hi"
        using ne(1) lt by (subst combos_split) (simp_all add: map_tl)
      moreover obtain t where t: "combos (Suc k) (v + 1) hi = replicate (Suc k) (v + 1) # t"
        using ne(2,3) by (cases "combos (Suc k) (v + 1) hi") (simp_all del: combos.simps)
      ultimately show ?thesis
        by (simp del: combos.simps add: t comp_def)
    qed
    finally show ?case .
  qed
qed

lemma unique_enum_combos:
  assumes "lo \<le> hi"
  shows "unique_enum (PyInt lo) (PyInt hi) len = Some (combos (nat len) lo hi, None)"
proof -
  let ?n = "nat len"
  obtain t where t: "combos ?n lo hi = replicate ?n lo # t"
    using combos_nonempty [OF assms, of ?n] by (cases "combos ?n lo hi") simp_all
  have "enum_loop hi (replicate ?n hi) (replicate ?n lo @ []) [replicate ?n lo]
        = enum_loop hi (replicate ?n hi) (replicate ?n hi @ [])
            ([replicate ?n lo] @ map (\<lambda>p. p @ []) (tl (combos ?n lo hi)))"
    using assms by (rule enum_loop_prefix)
  also have "\<dots> = Some (combos ?n lo hi, None)"
    by (subst enum_loop.simps) (simp add: t)
  finally show ?thesis
    using assms by (simp add: unique_enum_def check_bounds_def)
qed

lemma combos_members:
  "p \<in> set (combos k lo hi) \<Longrightarrow>
   length p = k \<and> (\<forall>x\<in>set p. lo \<le> x \<and> x \<le> hi) \<and> sorted_wrt (\<ge>) p"
proof (induction k arbitrary: lo p)
  case 0
  then show ?case by simp
next
  case (Suc k)
  then obtain v q where v: "lo \<le> v" "v \<le> hi" and q: "q \<in> set (combos k v hi)" and p: "p = q @ [v]"
    by auto
  from Suc.IH [OF q] show ?case
    using v by (auto simp: p sorted_wrt_append)
qed

lemma combos_complete:
  "length p = k \<Longrightarrow> (\<forall>x\<in>set p. lo \<le> x \<and> x \<le> hi) \<Longrightarrow> sorted_wrt (\<ge>) p
   \<Longrightarrow> p \<in> set (combos k lo hi)"
proof (induction k arbitrary: p lo)
  case 0
  then show ?case by simp
next
  case (Suc k)
  then obtain q v where p: "p = q @ [v]" and q: "length q = k"
    by (auto simp: length_Suc_conv_rev)
  have "q \<in> set (combos k v hi)"
    using Suc.prems q by (intro Suc.IH) (auto simp: p sorted_wrt_append)
  moreover have "lo \<le> v" "v \<le> hi"
    using Suc.prems(2) by (simp_all add: p)
  ultimately show ?case
    by (auto simp: p)
qed

lemma combos_distinct: "distinct (combos k lo hi)"
proof (induction k arbitrary: lo)
  case 0
  then show ?case by simp
next
  case (Suc k)
  show ?case
  proof (induction "nat (hi + 1 - lo)" arbitrary: lo)
    case 0
    then have "hi < lo" by simp
    then show ?case by simp
  next
    case (Suc d)
    then have le: "lo \<le> hi" by simp
    have d1: "distinct (map (\<lambda>p. p @ [lo]) (combos k lo hi))"
      using \<open>\<And>lo. distinct (combos k lo hi)\<close> by (simp add: distinct_map inj_on_def)
    have d2: "distinct (combos (Suc k) (lo + 1) hi)"
      using Suc.hyps(2) by (intro Suc.hyps(1)) simp
    have "last q \<noteq> lo" if "q \<in> set (combos (Suc k) (lo + 1) hi)" for q
    proof -
      have "length q = Suc k" "\<forall>x\<in>set q. lo + 1 \<le> x"
        using combos_members [OF that] by simp_all
      then have "q \<noteq> []" "\<forall>x\<in>set q. lo + 1 \<le> x"
        by auto
      then have "lo + 1 \<le> last q"
        using last_in_set [of q] by blast
      then show ?thesis by simp
    qed
    then have "set (map (\<lambda>p. p @ [lo]) (combos k lo hi)) \<inter> set (combos (Suc k) (lo + 1) hi) = {}"
      by (fastforce simp del: combos.simps dest: spec [of _ "_ @ [lo]"])
    then show ?case
      using d1 d2 by (simp only: combos_split [OF le] distinct_append)
  qed
qed

text \<open>The number of yields, by Pascal's rule.\<close>

lemma combos_length:
  "lo \<le> hi \<Longrightarrow> length (combos k lo hi) = (nat (hi - lo) + k) choose k"
proof (induction k arbitrary: lo)
  case 0
  then show ?case by simp
next
  case (Suc k)
  from Suc.prems show ?case
  proof (induction "nat (hi - lo)" arbitrary: lo)
    case 0
    then have [simp]: "lo = hi" by simp
    show ?case
      using Suc.IH [of hi] by (simp add: upto_rec1)
  next
    case (Suc d)
    then have lt: "lo < hi" and d: "d = nat (hi - (lo + 1))" by simp_all
    have "length (combos (Suc k) (lo + 1) hi) = (d + Suc k) choose Suc k"
      unfolding d using d lt by (intro Suc.hyps(1)) simp_all
    moreover have "length (combos k lo hi) = (Suc d + k) choose k"
      using Suc.hyps(2) lt \<open>\<And>lo. lo \<le> hi \<Longrightarrow> length (combos k lo hi) = (nat (hi - lo) + k) choose k\<close> [of lo]
      by simp
    ultimately show ?case
      using lt Suc.hyps(2) [symmetric]
      by (simp only: combos_split [of lo hi k] length_append length_map) simp
  qed
qed

section \<open>Rounding\<close>

lemma pow2_pos: "0 < pow2 k"
  by (simp add: pow2_def)

lemma pow2_Suc: "pow2 (k + 1) = 2 * pow2 k"
proof (cases "0 \<le> k")
  case True
  then show ?thesis by (simp add: pow2_def nat_add_distrib)
next
  case False
  then have "nat (- k) = Suc (nat (- (k + 1)))" by simp
  then show ?thesis using False by (simp add: pow2_def)
qed

lemma pow2_pred: "pow2 (k - 1) = pow2 k / 2"
  using pow2_Suc [of "k - 1"] by simp

lemma bexp_up_bracket:
  "1 \<le> a \<Longrightarrow> 0 \<le> bexp_up a \<and> pow2 (bexp_up a) \<le> a \<and> a < pow2 (bexp_up a + 1)"
proof (induction a rule: bexp_up.induct)
  case (1 a)
  show ?case
  proof (cases "a < 2")
    case True
    then show ?thesis using 1(2) by (subst (1 2 3) bexp_up.simps) (simp add: pow2_def)
  next
    case False
    then have ih: "0 \<le> bexp_up (a / 2)" "pow2 (bexp_up (a / 2)) \<le> a / 2"
      "a / 2 < pow2 (bexp_up (a / 2) + 1)"
      using 1 by simp_all
    have e: "bexp_up a = bexp_up (a / 2) + 1"
      using False by (subst bexp_up.simps) simp
    have "pow2 (bexp_up (a / 2) + 1) = 2 * pow2 (bexp_up (a / 2))"
      "pow2 (bexp_up (a / 2) + 1 + 1) = 2 * pow2 (bexp_up (a / 2) + 1)"
      by (rule pow2_Suc)+
    then show ?thesis
      using ih unfolding e by (intro conjI; linarith)
  qed
qed

lemma bexp_down_bracket:
  "0 < a \<Longrightarrow> a < 1 \<Longrightarrow> pow2 (bexp_down a) \<le> a \<and> a < pow2 (bexp_down a + 1)"
proof (induction a rule: bexp_down.induct)
  case (1 a)
  have e: "bexp_down a = bexp_down (2 * a) - 1"
    using 1(2,3) by (subst bexp_down.simps) simp
  show ?case
  proof (cases "2 * a < 1")
    case True
    then have "pow2 (bexp_down (2 * a)) \<le> 2 * a" "2 * a < pow2 (bexp_down (2 * a) + 1)"
      using 1 by simp_all
    moreover have "pow2 (bexp_down (2 * a) - 1) = pow2 (bexp_down (2 * a)) / 2"
      "pow2 (bexp_down (2 * a) + 1) = 2 * pow2 (bexp_down (2 * a))"
      by (rule pow2_pred, rule pow2_Suc)
    ultimately show ?thesis
      unfolding e by (intro conjI; simp)
  next
    case False
    then have "bexp_down (2 * a) = 0"
      by (subst bexp_down.simps) simp
    then show ?thesis
      using False 1(3) unfolding e by (simp add: pow2_def)
  qed
qed

lemma bexp_bracket: "0 < a \<Longrightarrow> pow2 (bexp a) \<le> a \<and> a < pow2 (bexp a + 1)"
  using bexp_up_bracket [of a] bexp_down_bracket [of a]
  by (cases "1 \<le> a") (simp_all add: bexp_def)

lemma pow2_mono: "j \<le> k \<Longrightarrow> pow2 j \<le> pow2 k"
proof (induction "nat (k - j)" arbitrary: k)
  case 0
  then show ?case by simp
next
  case (Suc d)
  then have "pow2 j \<le> pow2 (k - 1)" by simp
  then show ?case using pow2_Suc [of "k - 1"] pow2_pos [of "k - 1"] by simp
qed

lemma bexp_unique:
  assumes "pow2 k \<le> a" "a < pow2 (k + 1)"
  shows "bexp a = k"
proof -
  have a: "0 < a" using assms(1) pow2_pos [of k] by linarith
  note b = bexp_bracket [OF a]
  have "\<not> bexp a < k"
  proof
    assume "bexp a < k"
    then have "pow2 (bexp a + 1) \<le> pow2 k" by (intro pow2_mono) simp
    then show False using b assms by linarith
  qed
  moreover have "\<not> k < bexp a"
  proof
    assume "k < bexp a"
    then have "pow2 (k + 1) \<le> pow2 (bexp a)" by (intro pow2_mono) simp
    then show False using b assms by linarith
  qed
  ultimately show ?thesis by simp
qed

lemma py_round_near:
  assumes "of_int s - 1 / 2 < x" "x < of_int s + 1 / 2"
  shows "py_round x = s"
proof -
  have "\<lfloor>x\<rfloor> = s \<or> \<lfloor>x\<rfloor> = s - 1"
    using assms by linarith
  then show ?thesis
  proof
    assume "\<lfloor>x\<rfloor> = s"
    then show ?thesis using assms by (simp add: py_round_def Let_def)
  next
    assume "\<lfloor>x\<rfloor> = s - 1"
    then show ?thesis using assms by (simp add: py_round_def Let_def)
  qed
qed

lemma py_round_nonneg: "0 \<le> x \<Longrightarrow> 0 \<le> py_round x"
  by (simp add: py_round_def Let_def)

lemma py_round_close: "\<bar>of_int (py_round x) - x\<bar> \<le> 1 / 2"
  unfolding py_round_def Let_def by (auto; linarith)

lemma py_round_tie_even: "\<bar>of_int (py_round x) - x\<bar> = 1 / 2 \<Longrightarrow> even (py_round x)"
  unfolding py_round_def Let_def by (auto split: if_splits; linarith)


lemma rounds_to_unique:
  assumes r: "rounds_to x r"
  shows "r = py_round x"
proof -
  have c: "\<bar>x - of_int r\<bar> \<le> 1 / 2" "\<bar>of_int (py_round x) - x\<bar> \<le> 1 / 2"
    using r py_round_close [of x] by (simp_all add: rounds_to_def)
  then have "\<bar>of_int r - (of_int (py_round x) :: real)\<bar> \<le> 1"
    by linarith
  then have "\<bar>of_int (r - py_round x) :: real\<bar> \<le> of_int 1"
    by simp
  then have d: "\<bar>r - py_round x\<bar> \<le> 1"
    by (metis of_int_abs of_int_le_iff)
  have "r \<noteq> py_round x + 1"
  proof
    assume e: "r = py_round x + 1"
    then have "\<bar>x - of_int r\<bar> = 1 / 2" "\<bar>of_int (py_round x) - x\<bar> = 1 / 2"
      using c by (simp_all; linarith)+
    then have "even r" "even (py_round x)"
      using r py_round_tie_even [of x] by (simp_all add: rounds_to_def)
    then show False using e by simp
  qed
  moreover have "r \<noteq> py_round x - 1"
  proof
    assume e: "r = py_round x - 1"
    then have "\<bar>x - of_int r\<bar> = 1 / 2" "\<bar>of_int (py_round x) - x\<bar> = 1 / 2"
      using c by (simp_all; linarith)+
    then have "even r" "even (py_round x)"
      using r py_round_tie_even [of x] by (simp_all add: rounds_to_def)
    then show False using e by simp
  qed
  ultimately show ?thesis using d by linarith
qed

lemma fl_nonneg: "0 \<le> x \<Longrightarrow> 0 \<le> fl x"
  by (auto simp: fl_def Let_def less_imp_le [OF pow2_pos]
      intro!: mult_nonneg_nonneg py_round_nonneg divide_nonneg_pos pow2_pos)

lemma fl_bound: "\<bar>fl x\<bar> \<le> 2 * \<bar>x\<bar> + 1"
proof (cases "x = 0")
  case True
  then show ?thesis by (simp add: fl_def)
next
  case False
  define e where "e = max (bexp \<bar>x\<bar>) (- 1022)"
  define u where "u = pow2 (e - 52)"
  have u0: "0 < u" by (simp add: u_def pow2_pos)
  have f: "fl x = of_int (py_round (x / u)) * u"
    using False by (simp add: fl_def Let_def e_def u_def)
  have "\<bar>of_int (py_round (x / u)) - x / u\<bar> \<le> 1 / 2"
    by (rule py_round_close)
  then have "\<bar>of_int (py_round (x / u)) - x / u\<bar> * u \<le> 1 / 2 * u"
    using u0 by (intro mult_right_mono) simp_all
  moreover have "fl x - x = (of_int (py_round (x / u)) - x / u) * u"
    using u0 by (simp add: f left_diff_distrib)
  then have "\<bar>fl x - x\<bar> = \<bar>of_int (py_round (x / u)) - x / u\<bar> * u"
    using u0 by (simp add: abs_mult)
  ultimately have d: "\<bar>fl x - x\<bar> \<le> u / 2"
    by simp
  have "u \<le> \<bar>x\<bar> \<or> u \<le> 1"
  proof (cases "bexp \<bar>x\<bar> \<le> - 1022")
    case True
    then have "e = - 1022" by (simp add: e_def)
    then have "u \<le> pow2 0" unfolding u_def by (intro pow2_mono) simp
    then show ?thesis by (simp add: pow2_def)
  next
    case False
    then have "e = bexp \<bar>x\<bar>" by (simp add: e_def)
    then have "u \<le> pow2 (bexp \<bar>x\<bar>)" unfolding u_def by (intro pow2_mono) simp
    moreover have "pow2 (bexp \<bar>x\<bar>) \<le> \<bar>x\<bar>"
      using bexp_bracket [of "\<bar>x\<bar>"] \<open>x \<noteq> 0\<close> by simp
    ultimately show ?thesis by simp
  qed
  then show ?thesis using d by linarith
qed

text \<open>Rounding a value whose binary exponent and nearest grid point are known.\<close>

lemma fl_near:
  assumes "pow2 e \<le> v" "v < pow2 (e + 1)" "- 1022 \<le> e"
    and "of_int s - 1 / 2 < v / pow2 (e - 52)" "v / pow2 (e - 52) < of_int s + 1 / 2"
  shows "fl v = of_int s * pow2 (e - 52)"
proof -
  have v: "0 < v" using assms(1) pow2_pos [of e] by linarith
  then have "bexp \<bar>v\<bar> = e"
    using assms(1,2) by (intro bexp_unique) simp_all
  moreover have "py_round (v / pow2 (e - 52)) = s"
    using assms(4,5) by (rule py_round_near)
  ultimately show ?thesis
    using v assms(3) by (simp add: fl_def Let_def)
qed

lemma round_result_finite:
  assumes "\<bar>x\<bar> \<le> 2 ^ 1000"
  shows "round_result x = Finite (fl x)"
proof -
  have "\<bar>fl x\<bar> \<le> 2 * 2 ^ 1000 + 1"
    using fl_bound [of x] assms by linarith
  moreover have "2 * 2 ^ 1000 + 1 < (2 :: real) ^ 1024"
    by simp
  ultimately have "\<bar>fl x\<bar> < 2 ^ 1024" by linarith
  then have "\<not> 2 ^ 1024 \<le> fl x" "\<not> fl x \<le> - (2 ^ 1024)"
    by linarith+
  then show ?thesis
    unfolding round_result_def Let_def by (simp only: if_False)
qed

lemma round_result_nonneg: "0 \<le> x \<Longrightarrow> is_nonneg (round_result x)"
  using fl_nonneg [of x] by (simp add: round_result_def Let_def)

lemma round_result_not_nan: "round_result x \<noteq> NaN"
  by (simp add: round_result_def Let_def)

lemma fabs_nonneg: "c \<noteq> NaN \<Longrightarrow> is_nonneg (fabs c)"
  by (cases c) simp_all

lemma fadd_nonneg: "is_nonneg a \<Longrightarrow> is_nonneg b \<Longrightarrow> is_nonneg (fadd a b)"
  by (cases a; cases b) (simp_all add: round_result_nonneg)

lemma nonneg_not_less_zero: "is_nonneg c \<Longrightarrow> \<not> fless c (Finite 0)"
  by (cases c) simp_all

lemma deviation_nonneg: "deviation t i = Inr d \<Longrightarrow> is_nonneg d"
  by (auto simp: deviation_def fsub_def round_result_not_nan fabs_nonneg
      split: sum.splits if_splits)

lemma cubicity_nonneg: "cubicity t = Inr c \<Longrightarrow> is_nonneg c"
  by (auto simp: cubicity_def split: sum.splits intro!: fadd_nonneg dest: deviation_nonneg)

lemma int_to_float_small: "\<bar>i\<bar> \<le> 2 ^ 1000 \<Longrightarrow> int_to_float i = Inr (fl (of_int i))"
  by (simp add: int_to_float_def float_int_limit_def)

section \<open>The search\<close>

lemma true_divide_small:
  assumes "\<bar>s\<bar> \<le> 3 * 2 ^ 1000"
  shows "true_divide s 3 = Inr (fl (of_int s / 3))"
proof -
  have "real_of_int \<bar>s\<bar> \<le> real_of_int (3 * 2 ^ 1000)"
    using assms by (simp only: of_int_le_iff)
  then have "\<bar>real_of_int s / 3\<bar> \<le> 2 ^ 1000"
    by simp
  then have "\<bar>fl (of_int s / 3)\<bar> \<le> 2 * 2 ^ 1000 + 1"
    using fl_bound [of "of_int s / 3"] by linarith
  moreover have "2 * 2 ^ 1000 + 1 < (2 :: real) ^ 1024"
    by simp
  ultimately have "\<not> 2 ^ 1024 \<le> \<bar>fl (of_int s / 3)\<bar>"
    by linarith
  then show ?thesis
    unfolding true_divide_def Let_def by simp
qed

lemma deviation_total:
  assumes "length t = 3" "\<forall>x\<in>set t. \<bar>x\<bar> \<le> 2 ^ 1000" "i < 3"
  shows "\<exists>d. deviation t i = Inr d"
proof -
  obtain a b c where t: "t = [a, b, c]"
    using assms(1) by (auto simp: length_Suc_conv numeral_3_eq_3)
  have "\<bar>a\<bar> \<le> 2 ^ 1000" "\<bar>b\<bar> \<le> 2 ^ 1000" "\<bar>c\<bar> \<le> 2 ^ 1000"
    using assms(2) by (simp_all add: t)
  then have "\<bar>sum_list t\<bar> \<le> 3 * 2 ^ 1000"
    by (simp add: t)
  then have "true_divide (sum_list t) 3 = Inr (fl (of_int (sum_list t) / 3))"
    by (rule true_divide_small)
  moreover have "\<bar>t ! i\<bar> \<le> 2 ^ 1000"
    using assms by simp
  then have "int_to_float (t ! i) = Inr (fl (of_int (t ! i)))"
    by (rule int_to_float_small)
  ultimately show ?thesis
    using assms(1,3) by (simp add: deviation_def)
qed

lemma cubicity_total:
  assumes "length t = 3" "\<forall>x\<in>set t. \<bar>x\<bar> \<le> 2 ^ 1000"
  shows "\<exists>c. cubicity t = Inr c"
proof -
  obtain d0 d2 where "deviation t 0 = Inr d0" "deviation t 2 = Inr d2"
    using deviation_total [OF assms, of 0] deviation_total [OF assms, of 2] by auto
  then show ?thesis
    by (simp add: cubicity_def)
qed

lemma search_step_total:
  assumes "length f = 3" "length mf = 3"
    and "\<forall>x\<in>set f. \<bar>x\<bar> \<le> 2 ^ 1000" "\<forall>x\<in>set mf. \<bar>x\<bar> \<le> 2 ^ 1000"
  shows "\<exists>mf' me'. search_step number (mf, me) f = Inr (mf', me') \<and> me' \<le> me
           \<and> (mf' = mf \<or> mf' = f)"
proof -
  obtain c c_min where "cubicity f = Inr c" "cubicity mf = Inr c_min"
    using cubicity_total assms by blast
  then show ?thesis
    using assms(1) by (auto simp: search_step_def Let_def)
qed

lemma search_step_mono:
  "search_step number (mf, me) f = Inr (mf', me') \<Longrightarrow> me' \<le> me"
  by (auto simp: search_step_def Let_def split: if_splits sum.splits)

lemma search_loop_total:
  assumes "\<forall>f\<in>set ys. length f = 3 \<and> (\<forall>x\<in>set f. \<bar>x\<bar> \<le> 2 ^ 1000)"
    and "length mf = 3" "\<forall>x\<in>set mf. \<bar>x\<bar> \<le> 2 ^ 1000"
  shows "\<exists>mf' me'. search_loop number ys (mf, me) = Inr (mf', me') \<and> me' \<le> me
           \<and> (mf' = mf \<or> mf' \<in> set ys)"
  using assms
proof (induction ys arbitrary: mf me)
  case Nil
  then show ?case by simp
next
  case (Cons f ys)
  then have f: "length f = 3" "\<forall>x\<in>set f. \<bar>x\<bar> \<le> 2 ^ 1000" by simp_all
  from search_step_total [OF f(1) Cons.prems(2) f(2) Cons.prems(3), of number me]
  obtain mf1 me1 where s: "search_step number (mf, me) f = Inr (mf1, me1)" "me1 \<le> me"
    "mf1 = mf \<or> mf1 = f" by blast
  then have m1: "length mf1 = 3" "\<forall>x\<in>set mf1. \<bar>x\<bar> \<le> 2 ^ 1000"
    using Cons.prems f by auto
  have "\<forall>f\<in>set ys. length f = 3 \<and> (\<forall>x\<in>set f. \<bar>x\<bar> \<le> 2 ^ 1000)"
    using Cons.prems(1) by simp
  from Cons.IH [OF this m1, of me1]
  obtain mf' me' where "search_loop number ys (mf1, me1) = Inr (mf', me')" "me' \<le> me1"
    "mf' = mf1 \<or> mf' \<in> set ys" by auto
  then show ?case using s by auto
qed

lemma search_total:
  assumes "lower \<le> upper" "\<bar>lower\<bar> \<le> 2 ^ 1000" "\<bar>upper\<bar> \<le> 2 ^ 1000"
  shows "\<exists>mf me. search number lower upper = Some (Inr (mf, me))
           \<and> me \<le> \<bar>number - lower ^ 3\<bar> \<and> length mf = 3
           \<and> (\<forall>x\<in>set mf. lower \<le> x \<and> x \<le> upper)"
proof -
  let ?ys = "combos 3 lower upper"
  have u: "unique_enum (PyInt lower) (PyInt upper) 3 = Some (?ys, None)"
    using unique_enum_combos [OF assms(1), of 3] by simp
  have m: "\<forall>f\<in>set ?ys. length f = 3 \<and> (\<forall>x\<in>set f. lower \<le> x \<and> x \<le> upper)"
    using combos_members [of _ 3 lower upper] by blast
  have b: "\<bar>x\<bar> \<le> 2 ^ 1000" if "lower \<le> x" "x \<le> upper" for x
    using that assms(2,3) by linarith
  have "\<forall>f\<in>set ?ys. length f = 3 \<and> (\<forall>x\<in>set f. \<bar>x\<bar> \<le> 2 ^ 1000)"
    using m b by blast
  moreover have "length (replicate 3 lower) = 3" "\<forall>x\<in>set (replicate 3 lower). \<bar>x\<bar> \<le> 2 ^ 1000"
    using assms(2) by simp_all
  ultimately obtain mf me where r:
    "search_loop number ?ys (replicate 3 lower, \<bar>number - lower ^ 3\<bar>) = Inr (mf, me)"
    "me \<le> \<bar>number - lower ^ 3\<bar>" "mf = replicate 3 lower \<or> mf \<in> set ?ys"
    using search_loop_total [of ?ys "replicate 3 lower" number "\<bar>number - lower ^ 3\<bar>"]
    by blast
  have "length mf = 3 \<and> (\<forall>x\<in>set mf. lower \<le> x \<and> x \<le> upper)"
    using r(3) m assms(1) by auto
  then show ?thesis
    using r(1,2) u by (simp add: search_def Let_def del: combos.simps)
qed

section \<open>The bounds\<close>

lemma py_round_le: "of_int (py_round x) \<le> x + 1 / 2"
  using py_round_close [of x] by linarith

lemma fmul_bounded:
  assumes "0 \<le> r" "r \<le> 2 ^ 347" "0 \<le> c" "c \<le> 5"
  shows "fmul r c = Finite (fl (r * c)) \<and> 0 \<le> fl (r * c) \<and> fl (r * c) \<le> 2 ^ 351"
proof -
  have p: "0 \<le> r * c" "r * c \<le> 2 ^ 347 * 5"
    using assms(1,3) mult_mono [OF assms(2,4)] by simp_all
  moreover have "(2 :: real) ^ 347 * 5 \<le> 2 ^ 1000" "2 * ((2 :: real) ^ 347 * 5) + 1 \<le> 2 ^ 351"
    by simp_all
  ultimately have "\<bar>r * c\<bar> \<le> 2 ^ 1000" "2 * \<bar>r * c\<bar> + 1 \<le> 2 ^ 351"
    by linarith+
  then show ?thesis
    using fl_bound [of "r * c"] fl_nonneg [OF p(1)] round_result_finite [of "r * c"]
    by (simp add: fmul_def)
qed

lemma small_constants: "0 \<le> fl 0.5" "fl 0.5 \<le> 5" "0 \<le> fl 1.7" "fl 1.7 \<le> 5"
  using fl_nonneg [of "0.5"] fl_bound [of "0.5"] fl_nonneg [of "1.7"] fl_bound [of "1.7"]
  by simp_all

text \<open>For a root that is not negative and not absurdly large, no float operation of lines
  110--114 raises, and the bounds are the rounded double products of the source.\<close>

lemma search_bounds_value:
  assumes "0 \<le> rt" "rt \<le> 2 ^ 345"
  shows "search_bounds rt =
           Inr (if rt \<le> 5 then 0
                else min (py_round (fl (fl (of_int rt) * fl 0.5))) (rt - 5),
                max (py_round (fl (fl (of_int rt) * fl 1.7))) (rt + 5))"
    and "0 \<le> py_round (fl (fl (of_int rt) * fl 0.5))"
    and "py_round (fl (fl (of_int rt) * fl 1.7)) \<le> 2 ^ 352"
proof -
  have "rt \<le> 2 ^ 1000"
    using assms(2) by simp
  then have i: "int_to_float rt = Inr (fl (of_int rt))"
    using assms(1) by (intro int_to_float_small) simp
  have "real_of_int rt \<le> real_of_int (2 ^ 345)"
    using assms(2) by (simp only: of_int_le_iff)
  then have "real_of_int rt \<le> 2 ^ 345"
    by simp
  then have r: "0 \<le> fl (of_int rt)" "fl (of_int rt) \<le> 2 ^ 347"
    using fl_nonneg [of "of_int rt"] fl_bound [of "of_int rt"] assms(1) by simp_all
  note h = fmul_bounded [OF r small_constants(1,2)]
  note s = fmul_bounded [OF r small_constants(3,4)]
  show "search_bounds rt =
           Inr (if rt \<le> 5 then 0
                else min (py_round (fl (fl (of_int rt) * fl 0.5))) (rt - 5),
                max (py_round (fl (fl (of_int rt) * fl 1.7))) (rt + 5))"
    using h s by (simp add: search_bounds_def i)
  show "0 \<le> py_round (fl (fl (of_int rt) * fl 0.5))"
    using h by (intro py_round_nonneg) simp
  have "real_of_int (py_round (fl (fl (of_int rt) * fl 1.7))) \<le> 2 ^ 351 + 1 / 2"
    using py_round_le [of "fl (fl (of_int rt) * fl 1.7)"] s by linarith
  also have "\<dots> \<le> real_of_int (2 ^ 352)" by simp
  finally show "py_round (fl (fl (of_int rt) * fl 1.7)) \<le> 2 ^ 352"
    by (simp only: of_int_le_iff)
qed

lemma search_bounds_ordered:
  assumes "0 \<le> rt" "rt \<le> 2 ^ 345"
  shows "\<exists>lower upper. search_bounds rt = Inr (lower, upper)
           \<and> 0 \<le> lower \<and> lower \<le> upper \<and> upper \<le> 2 ^ 1000"
proof -
  note v = search_bounds_value [OF assms]
  have "rt + 5 \<le> 2 ^ 1000" "(2 :: int) ^ 352 \<le> 2 ^ 1000"
    using assms(2) by simp_all
  then show ?thesis
    using v assms(1) by (auto simp: min_def max_def)
qed

lemma cube_powr_third:
  assumes "0 < (c :: real)"
  shows "(c ^ 3) powr (1 / 3) = c"
proof -
  have "(c ^ 3) powr (1 / 3) = (c powr 3) powr (1 / 3)"
    using assms by (simp add: powr_numeral)
  also have "\<dots> = c powr (3 * (1 / 3))"
    by (rule powr_powr)
  also have "\<dots> = c"
    using assms by simp
  finally show ?thesis .
qed

lemma third_value: "fl (1 / 3) = 6004799503160661 / 18014398509481984"
  by code_simp

lemma pow_third_bounded:
  assumes "0 \<le> number" "number < float_int_limit"
  shows "\<exists>x. pow_third number = Inr x \<and> 0 \<le> x \<and> x \<le> 2 ^ 344"
proof -
  define x0 where "x0 = fl (of_int number)"
  have i: "int_to_float number = Inr x0"
    using assms by (simp add: int_to_float_def x0_def)
  have "number \<le> 2 ^ 1024"
    using assms(2) by (simp add: float_int_limit_def)
  then have "real_of_int number \<le> real_of_int (2 ^ 1024)"
    by (simp only: of_int_le_iff)
  then have "real_of_int number \<le> 2 ^ 1024"
    by simp
  then have x0: "0 \<le> x0" "x0 \<le> 2 ^ 1026"
    using fl_nonneg [of "of_int number"] fl_bound [of "of_int number"] assms(1)
    by (simp_all add: x0_def)
  have y: "0 \<le> fl (1 / 3)" "fl (1 / 3) \<le> 1 / 3"
    by (simp_all add: third_value)
  have "x0 powr fl (1 / 3) \<le> (2 ^ 1026) powr fl (1 / 3)"
    using x0 y(1) by (intro powr_mono2) simp_all
  also have "\<dots> \<le> (2 ^ 1026) powr (1 / 3)"
    using y(2) by (intro powr_mono) simp_all
  also have "\<dots> = 2 ^ 342"
    using cube_powr_third [of "2 ^ 342"] by simp
  finally have v: "x0 powr fl (1 / 3) \<le> 2 ^ 342" .
  have v0: "0 \<le> x0 powr fl (1 / 3)" by simp
  have "fl (x0 powr fl (1 / 3)) \<le> 2 ^ 344"
    using fl_bound [of "x0 powr fl (1 / 3)"] v v0 by simp
  then show ?thesis
    using x0(1) fl_nonneg [OF v0] by (simp add: pow_third_def i)
qed

lemma decompose_from_total:
  assumes "0 \<le> x" "x \<le> 2 ^ 344"
  shows "\<exists>lower upper mf me.
           search_bounds (py_round x) = Inr (lower, upper)
           \<and> 0 \<le> lower \<and> lower \<le> upper
           \<and> decompose_from x number = Some (Inr (mf, me))
           \<and> me \<le> \<bar>number - lower ^ 3\<bar> \<and> length mf = 3
           \<and> (\<forall>x\<in>set mf. lower \<le> x \<and> x \<le> upper)"
proof -
  have "real_of_int (py_round x) \<le> 2 ^ 344 + 1 / 2"
    using py_round_le [of x] assms(2) by linarith
  also have "\<dots> \<le> real_of_int (2 ^ 345)" by simp
  finally have "py_round x \<le> 2 ^ 345"
    by (simp only: of_int_le_iff)
  moreover have "0 \<le> py_round x"
    using assms(1) by (rule py_round_nonneg)
  ultimately obtain lower upper where b: "search_bounds (py_round x) = Inr (lower, upper)"
    "0 \<le> lower" "lower \<le> upper" "upper \<le> 2 ^ 1000"
    using search_bounds_ordered by blast
  then have "\<bar>lower\<bar> \<le> 2 ^ 1000" "\<bar>upper\<bar> \<le> 2 ^ 1000"
    by linarith+
  from search_total [OF b(3) this, of number]
  obtain mf me where "search number lower upper = Some (Inr (mf, me))"
    "me \<le> \<bar>number - lower ^ 3\<bar>" "length mf = 3" "\<forall>x\<in>set mf. lower \<le> x \<and> x \<le> upper"
    by blast
  then show ?thesis
    using b by (simp add: decompose_from_def)
qed

section \<open>Cubicity of small triplets\<close>

lemma fl_le: "\<bar>x\<bar> \<le> b \<Longrightarrow> \<bar>fl x\<bar> \<le> 2 * b + 1"
  using fl_bound [of x] by linarith

text \<open>While the entries stay below \<open>2^300\<close> no operation of \<open>cubicity\<close> overflows, and the
  result is the chain of roundings of the source.\<close>

lemma cubicity_small:
  assumes "\<bar>a\<bar> \<le> 2 ^ 300" "\<bar>b\<bar> \<le> 2 ^ 300" "\<bar>c\<bar> \<le> 2 ^ 300"
  shows "cubicity [a, b, c] =
           Inr (Finite (fl (fl (\<bar>fl (fl (of_int (a + b + c) / 3) - fl (of_int a))\<bar>
                                + \<bar>fl (fl (of_int (a + b + c) / 3) - fl (of_int c))\<bar>)
                            + \<bar>fl (fl (of_int (a + b + c) / 3) - fl (of_int c))\<bar>)))"
proof -
  define K :: real where "K = 2 ^ 300"
  have K: "1 \<le> K" "100 * K \<le> 2 ^ 1000"
    by (simp_all add: K_def)
  define m where "m = fl (of_int (a + b + c) / 3)"
  define fa where "fa = fl (of_int a)"
  define fc where "fc = fl (of_int c)"
  have r: "\<bar>real_of_int a\<bar> \<le> K" "\<bar>real_of_int b\<bar> \<le> K" "\<bar>real_of_int c\<bar> \<le> K"
  proof -
    have "real_of_int \<bar>a\<bar> \<le> real_of_int (2 ^ 300)" "real_of_int \<bar>b\<bar> \<le> real_of_int (2 ^ 300)"
      "real_of_int \<bar>c\<bar> \<le> real_of_int (2 ^ 300)"
      using assms by (simp_all only: of_int_le_iff)
    then show "\<bar>real_of_int a\<bar> \<le> K" "\<bar>real_of_int b\<bar> \<le> K" "\<bar>real_of_int c\<bar> \<le> K"
      by (simp_all add: K_def)
  qed
  have i: "\<bar>a\<bar> \<le> 2 ^ 1000" "\<bar>c\<bar> \<le> 2 ^ 1000" "\<bar>a + b + c\<bar> \<le> 3 * 2 ^ 1000"
    using assms by simp_all
  have td: "true_divide (sum_list [a, b, c]) 3 = Inr m"
    using true_divide_small [OF i(3)] by (simp add: m_def add.assoc)
  have ia: "int_to_float a = Inr fa" and ic: "int_to_float c = Inr fc"
    using int_to_float_small i(1,2) by (simp_all add: fa_def fc_def)
  have "\<bar>real_of_int (a + b + c) / 3\<bar> \<le> K"
    using r by simp
  then have m: "\<bar>m\<bar> \<le> 3 * K"
    using fl_le [of "of_int (a + b + c) / 3" K] K(1) by (simp add: m_def)
  have fa: "\<bar>fa\<bar> \<le> 3 * K" and fc: "\<bar>fc\<bar> \<le> 3 * K"
    using fl_le [OF r(1)] fl_le [OF r(3)] K(1) by (simp_all add: fa_def fc_def)
  have sa: "\<bar>m - fa\<bar> \<le> 2 ^ 1000" "\<bar>fl (m - fa)\<bar> \<le> 13 * K"
    using m fa K fl_le [of "m - fa" "6 * K"] by linarith+
  have sc: "\<bar>m - fc\<bar> \<le> 2 ^ 1000" "\<bar>fl (m - fc)\<bar> \<le> 13 * K"
    using m fc K fl_le [of "m - fc" "6 * K"] by linarith+
  have d0: "deviation [a, b, c] 0 = Inr (Finite \<bar>fl (m - fa)\<bar>)"
    using td ia round_result_finite [OF sa(1)] by (simp add: deviation_def fsub_def)
  have d2: "deviation [a, b, c] 2 = Inr (Finite \<bar>fl (m - fc)\<bar>)"
    using td ic round_result_finite [OF sc(1)] by (simp add: deviation_def fsub_def)
  have s1: "\<bar>\<bar>fl (m - fa)\<bar> + \<bar>fl (m - fc)\<bar>\<bar> \<le> 2 ^ 1000"
    "\<bar>fl (\<bar>fl (m - fa)\<bar> + \<bar>fl (m - fc)\<bar>)\<bar> \<le> 53 * K"
    using sa(2) sc(2) K fl_le [of "\<bar>fl (m - fa)\<bar> + \<bar>fl (m - fc)\<bar>" "26 * K"] by linarith+
  have s2: "\<bar>fl (\<bar>fl (m - fa)\<bar> + \<bar>fl (m - fc)\<bar>) + \<bar>fl (m - fc)\<bar>\<bar> \<le> 2 ^ 1000"
    using s1(2) sc(2) K by linarith
  have "cubicity [a, b, c] =
          Inr (Finite (fl (fl (\<bar>fl (m - fa)\<bar> + \<bar>fl (m - fc)\<bar>) + \<bar>fl (m - fc)\<bar>)))"
    using round_result_finite [OF s1(1)] round_result_finite [OF s2]
    by (simp add: cubicity_def d0 d2)
  then show ?thesis
    unfolding m_def fa_def fc_def .
qed

lemma cubicity_222: "cubicity [2, 2, 2] = Inr (Finite 0)"
proof -
  have "fl (fl (\<bar>fl (fl (of_int (2 + 2 + 2) / 3) - fl (of_int 2))\<bar>
                + \<bar>fl (fl (of_int (2 + 2 + 2) / 3) - fl (of_int 2))\<bar>)
            + \<bar>fl (fl (of_int (2 + 2 + 2) / 3) - fl (of_int 2))\<bar>) = 0"
    by code_simp
  then show ?thesis
    using cubicity_small [of 2 2 2] by simp
qed

lemma cubicity_421: "cubicity [4, 2, 1] = Inr (Finite (2439449798159019 / 562949953421312))"
proof -
  have "fl (fl (\<bar>fl (fl (of_int (4 + 2 + 1) / 3) - fl (of_int 4))\<bar>
                + \<bar>fl (fl (of_int (4 + 2 + 1) / 3) - fl (of_int 1))\<bar>)
            + \<bar>fl (fl (of_int (4 + 2 + 1) / 3) - fl (of_int 1))\<bar>)
        = 2439449798159019 / 562949953421312"
    by code_simp
  then show ?thesis
    using cubicity_small [of 4 2 1] by simp
qed

lemma cubicity_000: "cubicity [0, 0, 0] = Inr (Finite 0)"
  using cubicity_small [of 0 0 0] by (simp add: fl_def)

section \<open>Runs of the search loop\<close>

lemma search_loop_append:
  "search_loop number (xs @ ys) best =
     (case search_loop number xs best of
        Inl e \<Rightarrow> Inl e
      | Inr b \<Rightarrow> search_loop number ys b)"
  by (induction xs arbitrary: best) (simp_all split: sum.splits)

lemma search_step_skip:
  "length g = 3 \<Longrightarrow> me < approx_error number g \<Longrightarrow>
   search_step number (mf, me) g = Inr (mf, me)"
  by (simp add: search_step_def approx_error_def Let_def)

lemma search_step_hit:
  "length g = 3 \<Longrightarrow> approx_error number g < me \<Longrightarrow>
   search_step number (mf, me) g = Inr (g, approx_error number g)"
  by (simp add: search_step_def approx_error_def Let_def)

lemma search_step_error:
  "search_step number (mf, me) g = Inr (mf', me') \<Longrightarrow>
   me' = me \<or> me' = approx_error number g"
  by (auto simp: search_step_def approx_error_def Let_def split: if_splits sum.splits)

text \<open>Candidates whose error exceeds the best one leave the record as it is.\<close>

lemma search_loop_skip:
  "\<forall>g\<in>set ys. length g = 3 \<and> me < approx_error number g \<Longrightarrow>
   search_loop number ys (mf, me) = Inr (mf, me)"
  by (induction ys) (simp_all add: search_step_skip)

text \<open>Candidates that miss the target leave the best error positive.\<close>

lemma search_loop_positive:
  assumes "\<forall>g\<in>set ys. length g = 3 \<and> (\<forall>x\<in>set g. \<bar>x\<bar> \<le> 2 ^ 1000)
             \<and> 0 < approx_error number g"
    and "0 < me" "length mf = 3" "\<forall>x\<in>set mf. \<bar>x\<bar> \<le> 2 ^ 1000"
  shows "\<exists>mf' me'. search_loop number ys (mf, me) = Inr (mf', me') \<and> 0 < me'"
  using assms
proof (induction ys arbitrary: mf me)
  case Nil
  then show ?case by simp
next
  case (Cons g ys)
  then have g: "length g = 3" "\<forall>x\<in>set g. \<bar>x\<bar> \<le> 2 ^ 1000" "0 < approx_error number g"
    by simp_all
  from search_step_total [OF g(1) Cons.prems(3) g(2) Cons.prems(4), of number me]
  obtain mf1 me1 where s: "search_step number (mf, me) g = Inr (mf1, me1)"
    "mf1 = mf \<or> mf1 = g" by blast
  then have "me1 = me \<or> me1 = approx_error number g"
    using search_step_error by blast
  then have p: "0 < me1" using g(3) Cons.prems(2) by auto
  have m1: "length mf1 = 3" "\<forall>x\<in>set mf1. \<bar>x\<bar> \<le> 2 ^ 1000"
    using s(2) g Cons.prems by auto
  have "\<forall>g\<in>set ys. length g = 3 \<and> (\<forall>x\<in>set g. \<bar>x\<bar> \<le> 2 ^ 1000)
          \<and> 0 < approx_error number g"
    using Cons.prems(1) by simp
  from Cons.IH [OF this p m1] show ?case
    using s(1) by simp
qed

text \<open>A candidate that hits the target after only misses becomes the best record, and
  misses after it do not change the record.\<close>

lemma search_loop_first_hit:
  assumes "\<forall>g\<in>set pre. length g = 3 \<and> (\<forall>x\<in>set g. \<bar>x\<bar> \<le> 2 ^ 1000)
             \<and> 0 < approx_error number g"
    and "0 < me" "length mf = 3" "\<forall>x\<in>set mf. \<bar>x\<bar> \<le> 2 ^ 1000"
    and "length f = 3" "approx_error number f = 0"
    and "\<forall>g\<in>set post. length g = 3 \<and> 0 < approx_error number g"
  shows "search_loop number (pre @ f # post) (mf, me) = Inr (f, 0)"
proof -
  obtain mf1 me1 where a: "search_loop number pre (mf, me) = Inr (mf1, me1)" "0 < me1"
    using search_loop_positive [OF assms(1-4)] by blast
  have "search_step number (mf1, me1) f = Inr (f, 0)"
    using search_step_hit [of f number me1 mf1] assms(5,6) a(2) by simp
  moreover have "search_loop number post (f, 0) = Inr (f, 0)"
    using assms(7) by (intro search_loop_skip) simp
  ultimately show ?thesis
    by (simp add: search_loop_append a(1))
qed

text \<open>A record of error 0 and cubicity 0 survives every candidate.\<close>

lemma search_loop_perfect:
  assumes "cubicity mf = Inr (Finite 0)"
    and "\<forall>g\<in>set ys. length g = 3 \<and> (\<forall>x\<in>set g. \<bar>x\<bar> \<le> 2 ^ 1000)"
  shows "search_loop number ys (mf, 0) = Inr (mf, 0)"
  using assms(2)
proof (induction ys)
  case Nil
  then show ?case by simp
next
  case (Cons g ys)
  then have g: "length g = 3" "\<forall>x\<in>set g. \<bar>x\<bar> \<le> 2 ^ 1000" by simp_all
  obtain c where c: "cubicity g = Inr c"
    using cubicity_total [OF g] by blast
  then have "\<not> fless c (Finite 0)"
    using cubicity_nonneg nonneg_not_less_zero by blast
  then have "search_step number (mf, 0) g = Inr (mf, 0)"
    using g(1) c assms(1) by (simp add: search_step_def Let_def)
  then show ?case
    using Cons by simp
qed

section \<open>The power at the cubes 0, 8 and 27\<close>

lemma cube_powr_third_double:
  assumes "1 < (c :: real)"
  shows "(c ^ 3) powr fl (1 / 3) = c * exp (- (ln c / 2 ^ 54))"
proof -
  have "(c ^ 3) powr fl (1 / 3) = exp (fl (1 / 3) * ln (c ^ 3))"
    using assms by (simp add: powr_def)
  also have "ln (c ^ 3) = 3 * ln c"
    using assms by (simp add: ln_realpow)
  also have "fl (1 / 3) * (3 * ln c) = ln c + - (ln c / 2 ^ 54)"
    by (simp add: third_value field_simps)
  also have "exp (ln c + - (ln c / 2 ^ 54)) = c * exp (- (ln c / 2 ^ 54))"
    using assms by (simp only: exp_add) simp
  finally show ?thesis .
qed

lemma ln3_bound: "ln (3 :: real) < 4 / 3"
proof -
  have "1 + (4 / 3) + (4 / 3)\<^sup>2 / 2 \<le> exp (4 / 3 :: real)"
    by (rule exp_lower_Taylor_quadratic) simp
  then have "(3 :: real) < exp (4 / 3)"
    by (simp add: power2_eq_square)
  then have "ln (3 :: real) < ln (exp (4 / 3))"
    by (subst ln_less_cancel_iff) simp_all
  then show ?thesis by simp
qed

lemma pow_third_27: "pow_third 27 = Inr 3"
proof -
  define v :: real where "v = 3 * exp (- (ln 3 / 2 ^ 54))"
  have "1 + - (ln 3 / 2 ^ 54) \<le> exp (- (ln (3 :: real) / 2 ^ 54))"
    by (rule exp_ge_add_one_self)
  moreover have "exp (- (ln (3 :: real) / 2 ^ 54)) < 1"
    by simp
  moreover have "ln (3 :: real) / 2 ^ 54 < (4 / 3) / 2 ^ 54"
    using ln3_bound by (simp add: divide_strict_right_mono)
  ultimately have b: "3 - 4 / 2 ^ 54 < v" "v < 3"
    by (simp_all add: v_def; linarith)+
  have "fl v = of_int 6755399441055744 * pow2 (1 - 52)"
  proof (rule fl_near)
    show "pow2 1 \<le> v" "v < pow2 (1 + 1)" "- 1022 \<le> (1 :: int)"
      using b by (simp_all add: pow2_def)
    have "v / pow2 (1 - 52) = v * 2 ^ 51"
      by (simp add: pow2_def)
    then show "of_int 6755399441055744 - 1 / 2 < v / pow2 (1 - 52)"
      "v / pow2 (1 - 52) < of_int 6755399441055744 + 1 / 2"
      using b by simp_all
  qed
  then have f: "fl v = 3"
    by (simp add: pow2_def)
  have "fl 27 = 27"
    by code_simp
  then have "int_to_float 27 = Inr 27"
    using int_to_float_small [of 27] by simp
  moreover have "(27 :: real) powr fl (1 / 3) = v"
    using cube_powr_third_double [of 3] by (simp add: v_def)
  ultimately show ?thesis
    using f by (simp add: pow_third_def)
qed

lemma pow_third_8: "pow_third 8 = Inr 2"
proof -
  define v :: real where "v = 2 * exp (- (ln 2 / 2 ^ 54))"
  have "1 + - (ln 2 / 2 ^ 54) \<le> exp (- (ln (2 :: real) / 2 ^ 54))"
    by (rule exp_ge_add_one_self)
  moreover have "exp (- (ln (2 :: real) / 2 ^ 54)) < 1"
    by simp
  moreover have "ln (2 :: real) / 2 ^ 54 < 1 / 2 ^ 54"
    using ln_2_less_1 by (simp add: divide_strict_right_mono)
  ultimately have b: "2 - 2 / 2 ^ 54 < v" "v < 2"
    by (simp_all add: v_def; linarith)+
  have "fl v = of_int 9007199254740992 * pow2 (0 - 52)"
  proof (rule fl_near)
    show "pow2 0 \<le> v" "v < pow2 (0 + 1)" "- 1022 \<le> (0 :: int)"
      using b by (simp_all add: pow2_def)
    have "v / pow2 (0 - 52) = v * 2 ^ 52"
      by (simp add: pow2_def)
    then show "of_int 9007199254740992 - 1 / 2 < v / pow2 (0 - 52)"
      "v / pow2 (0 - 52) < of_int 9007199254740992 + 1 / 2"
      using b by simp_all
  qed
  then have f: "fl v = 2"
    by (simp add: pow2_def)
  have "fl 8 = 8"
    by code_simp
  then have "int_to_float 8 = Inr 8"
    using int_to_float_small [of 8] by simp
  moreover have "(8 :: real) powr fl (1 / 3) = v"
    using cube_powr_third_double [of 2] by (simp add: v_def)
  ultimately show ?thesis
    using f by (simp add: pow_third_def)
qed

lemma pow_third_0: "pow_third 0 = Inr 0"
  by (simp add: pow_third_def int_to_float_def float_int_limit_def fl_def)

lemma combos_bounded:
  assumes "g \<in> set (combos 3 lower upper)" "\<bar>lower\<bar> \<le> 2 ^ 1000" "\<bar>upper\<bar> \<le> 2 ^ 1000"
  shows "length g = 3 \<and> (\<forall>x\<in>set g. \<bar>x\<bar> \<le> 2 ^ 1000)"
proof -
  have "length g = 3" "\<forall>x\<in>set g. lower \<le> x \<and> x \<le> upper"
    using combos_members [OF assms(1)] by simp_all
  moreover have "\<bar>x\<bar> \<le> 2 ^ 1000" if "lower \<le> x" "x \<le> upper" for x
    using that assms(2,3) by linarith
  ultimately show ?thesis by blast
qed

section \<open>The claims\<close>

text \<open>
  C1: \<open>decompose(27)\<close> returns the triplet \<open>[3,3,3]\<close> with error 0 and \<open>decompose(8)\<close>
  returns \<open>[2,2,2]\<close> with error 0. For 8 the power is \<open>2.0\<close> and the search runs over
  \<open>[0, 7]\<close>; when the generator yields \<open>[2,2,2]\<close>, its 65th sequence, the best record is the
  zero-error candidate \<open>[4,2,1]\<close> found earlier, and the step on \<open>[2,2,2]\<close> replaces it by
  the cubicity tie-break.
\<close>

theorem decompose_cubes:
  "decompose 27 = Some (Inr ([3, 3, 3], 0))
   \<and> decompose 8 = Some (Inr ([2, 2, 2], 0))
   \<and> pow_third 8 = Inr 2 \<and> search_bounds (py_round 2) = Inr (0, 7)
   \<and> map_option
         (\<lambda>(ys, raised). (ys ! 64, search_loop 8 (take 64 ys) (replicate 3 0, \<bar>8 - 0 ^ 3\<bar>)))
         (unique_enum (PyInt 0) (PyInt 7) 3)
       = Some ([2, 2, 2], Inr ([4, 2, 1], 0))
   \<and> search_step 8 ([4, 2, 1], 0) [2, 2, 2] = Inr ([2, 2, 2], 0)"
proof -
  have r3: "py_round 3 = 3" and r2: "py_round 2 = 2"
    by (simp_all add: py_round_def)
  have "py_round (fl (fl (of_int 3) * fl 1.7)) = 5"
    by code_simp
  then have b27: "search_bounds 3 = Inr (0, 8)"
    using search_bounds_value(1) [of 3] by simp
  have "py_round (fl (fl (of_int 2) * fl 1.7)) = 3"
    by code_simp
  then have b8: "search_bounds 2 = Inr (0, 7)"
    using search_bounds_value(1) [of 2] by simp
  have m27: "\<forall>g\<in>set (combos 3 0 8). length g = 3 \<and> (\<forall>x\<in>set g. \<bar>x\<bar> \<le> 2 ^ 1000)"
    and m8: "\<forall>g\<in>set (combos 3 0 7). length g = 3 \<and> (\<forall>x\<in>set g. \<bar>x\<bar> \<le> 2 ^ 1000)"
    using combos_bounded [of _ 0 8] combos_bounded [of _ 0 7] by simp_all
  have init: "length (replicate 3 (0 :: int)) = 3" "\<forall>x\<in>set (replicate 3 (0 :: int)). \<bar>x\<bar> \<le> 2 ^ 1000"
    by simp_all

  have ys27: "combos 3 0 8 = take 109 (combos 3 0 8) @ [3, 3, 3] # drop 110 (combos 3 0 8)"
    by code_simp
  have "list_all (\<lambda>g. 0 < approx_error 27 g) (take 109 (combos 3 0 8))"
    "list_all (\<lambda>g. 0 < approx_error 27 g) (drop 110 (combos 3 0 8))"
    by code_simp+
  then have miss27: "\<forall>g\<in>set (take 109 (combos 3 0 8)). 0 < approx_error 27 g"
    "\<forall>g\<in>set (drop 110 (combos 3 0 8)). 0 < approx_error 27 g"
    by (simp_all only: list_all_iff)
  have "search_loop 27 (take 109 (combos 3 0 8) @ [3, 3, 3] # drop 110 (combos 3 0 8))
          (replicate 3 0, \<bar>27 - 0 ^ 3\<bar>) = Inr ([3, 3, 3], 0)"
  proof (rule search_loop_first_hit)
    show "\<forall>g\<in>set (take 109 (combos 3 0 8)). length g = 3 \<and> (\<forall>x\<in>set g. \<bar>x\<bar> \<le> 2 ^ 1000)
            \<and> 0 < approx_error 27 g"
      using m27 miss27(1) by (meson in_set_takeD)
    show "\<forall>g\<in>set (drop 110 (combos 3 0 8)). length g = 3 \<and> 0 < approx_error 27 g"
      using m27 miss27(2) by (meson in_set_dropD)
    show "approx_error 27 [3, 3, 3] = 0"
      by (simp add: approx_error_def)
  qed (use init in simp_all)
  then have "search_loop 27 (combos 3 0 8) (replicate 3 0, \<bar>27 - 0 ^ 3\<bar>) = Inr ([3, 3, 3], 0)"
    using ys27 by simp
  then have "search 27 0 8 = Some (Inr ([3, 3, 3], 0))"
    using unique_enum_combos [of 0 8 3] by (simp add: search_def Let_def del: combos.simps)
  then have d27: "decompose 27 = Some (Inr ([3, 3, 3], 0))"
    by (simp add: decompose_def pow_third_27 decompose_from_def r3 b27)

  have ys8: "combos 3 0 7 = take 64 (combos 3 0 7) @ [2, 2, 2] # drop 65 (combos 3 0 7)"
    and pre8: "take 64 (combos 3 0 7)
                 = take 45 (combos 3 0 7) @ [4, 2, 1] # take 18 (drop 46 (combos 3 0 7))"
    by code_simp+
  have "list_all (\<lambda>g. 0 < approx_error 8 g) (take 45 (combos 3 0 7))"
    "list_all (\<lambda>g. 0 < approx_error 8 g) (take 18 (drop 46 (combos 3 0 7)))"
    "list_all (\<lambda>g. 0 < approx_error 8 g) (drop 65 (combos 3 0 7))"
    by code_simp+
  then have miss8: "\<forall>g\<in>set (take 45 (combos 3 0 7)). 0 < approx_error 8 g"
    "\<forall>g\<in>set (take 18 (drop 46 (combos 3 0 7))). 0 < approx_error 8 g"
    "\<forall>g\<in>set (drop 65 (combos 3 0 7)). 0 < approx_error 8 g"
    by (simp_all only: list_all_iff)
  have "search_loop 8 (take 45 (combos 3 0 7) @ [4, 2, 1] # take 18 (drop 46 (combos 3 0 7)))
          (replicate 3 0, \<bar>8 - 0 ^ 3\<bar>) = Inr ([4, 2, 1], 0)"
  proof (rule search_loop_first_hit)
    show "\<forall>g\<in>set (take 45 (combos 3 0 7)). length g = 3 \<and> (\<forall>x\<in>set g. \<bar>x\<bar> \<le> 2 ^ 1000)
            \<and> 0 < approx_error 8 g"
      using m8 miss8(1) by (meson in_set_takeD)
    show "\<forall>g\<in>set (take 18 (drop 46 (combos 3 0 7))). length g = 3 \<and> 0 < approx_error 8 g"
      using m8 miss8(2) by (meson in_set_takeD in_set_dropD)
    show "approx_error 8 [4, 2, 1] = 0"
      by (simp add: approx_error_def)
  qed (use init in simp_all)
  then have first8: "search_loop 8 (take 64 (combos 3 0 7)) (replicate 3 0, \<bar>8 - 0 ^ 3\<bar>)
                       = Inr ([4, 2, 1], 0)"
    using pre8 by simp
  have tie8: "search_step 8 ([4, 2, 1], 0) [2, 2, 2] = Inr ([2, 2, 2], 0)"
    by (simp add: search_step_def cubicity_222 cubicity_421)
  have "\<forall>g\<in>set (drop 65 (combos 3 0 7)). length g = 3 \<and> 0 < approx_error 8 g"
    using m8 miss8(3) by (meson in_set_dropD)
  then have "search_loop 8 (drop 65 (combos 3 0 7)) ([2, 2, 2], 0) = Inr ([2, 2, 2], 0)"
    by (rule search_loop_skip)
  then have "search_loop 8 (take 64 (combos 3 0 7) @ [2, 2, 2] # drop 65 (combos 3 0 7))
               (replicate 3 0, \<bar>8 - 0 ^ 3\<bar>) = Inr ([2, 2, 2], 0)"
    using first8 tie8 by (simp add: search_loop_append)
  then have "search_loop 8 (combos 3 0 7) (replicate 3 0, \<bar>8 - 0 ^ 3\<bar>) = Inr ([2, 2, 2], 0)"
    using ys8 by simp
  then have "search 8 0 7 = Some (Inr ([2, 2, 2], 0))"
    using unique_enum_combos [of 0 7 3] by (simp add: search_def Let_def del: combos.simps)
  then have d8: "decompose 8 = Some (Inr ([2, 2, 2], 0))"
    by (simp add: decompose_def pow_third_8 decompose_from_def r2 b8)

  have "combos 3 0 7 ! 64 = [2, 2, 2]"
    by code_simp
  then have "map_option
         (\<lambda>(ys, raised). (ys ! 64, search_loop 8 (take 64 ys) (replicate 3 0, \<bar>8 - 0 ^ 3\<bar>)))
         (unique_enum (PyInt 0) (PyInt 7) 3)
       = Some ([2, 2, 2], Inr ([4, 2, 1], 0))"
    using unique_enum_combos [of 0 7 3] first8 by (simp del: combos.simps)
  then show ?thesis
    using d27 d8 pow_third_8 b8 tie8 by (simp only: r2 simp_thms)
qed

text \<open>
  C2: for every integer \<open>number\<close> in \<open>[1, 10000000]\<close>, \<open>decompose(number)\<close> returns a triplet
  whose three components lie within the computed bounds \<open>[lower, upper]\<close>, with an error of
  at most \<open>|number - lower^3|\<close>, the error of the initial best record; and no step of the
  search increases the error of the best record.
\<close>

theorem decompose_within_bounds:
  assumes "1 \<le> number" "number \<le> 10000000"
  shows "\<exists>x lower upper triplet err.
           pow_third number = Inr x
           \<and> search_bounds (py_round x) = Inr (lower, upper)
           \<and> decompose number = Some (Inr (triplet, err))
           \<and> length triplet = 3
           \<and> (\<forall>v\<in>set triplet. lower \<le> v \<and> v \<le> upper)
           \<and> err \<le> \<bar>number - lower ^ 3\<bar>
           \<and> (\<forall>min_factors min_error factors min_factors' min_error'.
                 search_step number (min_factors, min_error) factors
                   = Inr (min_factors', min_error')
                 \<longrightarrow> min_error' \<le> min_error)"
proof -
  have "number < float_int_limit"
    using assms(2) by (simp add: float_int_limit_def)
  then obtain x where x: "pow_third number = Inr x" "0 \<le> x" "x \<le> 2 ^ 344"
    using pow_third_bounded [of number] assms(1) by auto
  from decompose_from_total [OF x(2,3), of number]
  obtain lower upper mf me where s: "search_bounds (py_round x) = Inr (lower, upper)"
    "decompose_from x number = Some (Inr (mf, me))" "me \<le> \<bar>number - lower ^ 3\<bar>"
    "length mf = 3" "\<forall>v\<in>set mf. lower \<le> v \<and> v \<le> upper"
    by blast
  have "decompose number = Some (Inr (mf, me))"
    using x(1) s(2) by (simp add: decompose_def)
  then show ?thesis
    using x(1) s search_step_mono by blast
qed

theorem decompose_within_bounds_witness:
  "\<exists>x lower upper triplet err.
     pow_third 8 = Inr x
     \<and> search_bounds (py_round x) = Inr (lower, upper)
     \<and> decompose 8 = Some (Inr (triplet, err))
     \<and> length triplet = 3
     \<and> (\<forall>v\<in>set triplet. lower \<le> v \<and> v \<le> upper)
     \<and> err \<le> \<bar>8 - lower ^ 3\<bar>
     \<and> (\<forall>min_factors min_error factors min_factors' min_error'.
           search_step 8 (min_factors, min_error) factors = Inr (min_factors', min_error')
           \<longrightarrow> min_error' \<le> min_error)"
  by (rule decompose_within_bounds) simp_all

text \<open>
  C3: for all integers \<open>lo \<le> hi\<close> and positive length \<open>L\<close>, \<open>unique_enum(lo, hi, length=L)\<close>
  yields exactly \<open>C(hi-lo+L, L)\<close> distinct sequences, every entry of every yielded sequence
  lying in \<open>[lo, hi]\<close>; when \<open>lo = hi\<close> it yields exactly one sequence, all of whose entries
  equal that bound. The yields are the combinations with repetition of \<open>L\<close> values from
  \<open>[lo, hi]\<close>: each multiset appears once, as the arrangement in which no element exceeds
  the one before it.
\<close>

theorem unique_enum_count:
  assumes "lo \<le> hi" "0 < L"
  shows "\<exists>ys. unique_enum (PyInt lo) (PyInt hi) L = Some (ys, None)
           \<and> length ys = nat (hi - lo + L) choose nat L
           \<and> distinct ys
           \<and> (\<forall>p\<in>set ys. length p = nat L \<and> (\<forall>x\<in>set p. lo \<le> x \<and> x \<le> hi))
           \<and> (lo = hi \<longrightarrow> ys = [replicate (nat L) lo])
           \<and> set ys = {p. length p = nat L \<and> (\<forall>x\<in>set p. lo \<le> x \<and> x \<le> hi)
                            \<and> sorted_wrt (\<ge>) p}"
proof -
  let ?ys = "combos (nat L) lo hi"
  have "unique_enum (PyInt lo) (PyInt hi) L = Some (?ys, None)"
    using assms(1) by (rule unique_enum_combos)
  moreover have "length ?ys = nat (hi - lo + L) choose nat L"
    using assms by (simp add: combos_length nat_add_distrib)
  moreover have "distinct ?ys"
    by (rule combos_distinct)
  moreover have "\<forall>p\<in>set ?ys. length p = nat L \<and> (\<forall>x\<in>set p. lo \<le> x \<and> x \<le> hi)"
    using combos_members by blast
  moreover have "lo = hi \<longrightarrow> ?ys = [replicate (nat L) lo]"
    by (simp add: combos_single)
  moreover have "set ?ys = {p. length p = nat L \<and> (\<forall>x\<in>set p. lo \<le> x \<and> x \<le> hi)
                               \<and> sorted_wrt (\<ge>) p}"
    using combos_members [of _ "nat L" lo hi] combos_complete [of _ "nat L" lo hi] by blast
  ultimately show ?thesis by blast
qed

theorem unique_enum_count_witness:
  "\<exists>ys. unique_enum (PyInt 1) (PyInt 2) 2 = Some (ys, None)
     \<and> length ys = nat (2 - 1 + 2) choose nat 2
     \<and> distinct ys
     \<and> (\<forall>p\<in>set ys. length p = nat 2 \<and> (\<forall>x\<in>set p. 1 \<le> x \<and> x \<le> 2))
     \<and> ((1::int) = 2 \<longrightarrow> ys = [replicate (nat 2) 1])
     \<and> set ys = {p. length p = nat 2 \<and> (\<forall>x\<in>set p. 1 \<le> x \<and> x \<le> 2)
                      \<and> sorted_wrt (\<ge>) p}"
  by (rule unique_enum_count) simp_all

text \<open>
  C4: \<open>unique_enum(1, 2, length=2)\<close> yields exactly \<open>[1,1]\<close>, \<open>[2,1]\<close>, \<open>[2,2]\<close> in that order,
  and \<open>unique_enum(1, 2, length=3)\<close> yields exactly \<open>[1,1,1]\<close>, \<open>[2,1,1]\<close>, \<open>[2,2,1]\<close>,
  \<open>[2,2,2]\<close> in that order.
\<close>

theorem unique_enum_examples:
  "unique_enum (PyInt 1) (PyInt 2) 2 = Some ([[1, 1], [2, 1], [2, 2]], None)
   \<and> unique_enum (PyInt 1) (PyInt 2) 3
       = Some ([[1, 1, 1], [2, 1, 1], [2, 2, 1], [2, 2, 2]], None)"
  by code_simp

text \<open>
  C5, as amended: every sequence yielded by \<open>unique_enum(lo, hi, length=L)\<close>, for integers
  \<open>lo \<le> hi\<close>, is non-increasing (each element is greater than or equal to the next
  element).
\<close>

theorem unique_enum_nonincreasing:
  assumes "lo \<le> hi"
  shows "\<exists>ys. unique_enum (PyInt lo) (PyInt hi) L = Some (ys, None)
           \<and> (\<forall>p\<in>set ys. \<forall>i. Suc i < length p \<longrightarrow> p ! Suc i \<le> p ! i)"
proof -
  have "p ! Suc i \<le> p ! i" if "p \<in> set (combos (nat L) lo hi)" "Suc i < length p" for p i
  proof -
    have "sorted_wrt (\<ge>) p"
      using combos_members [OF that(1)] by simp
    then show ?thesis
      using that(2) sorted_wrt_nth_less [of "\<lambda>x y. y \<le> x" p i "Suc i"] by simp
  qed
  then show ?thesis
    using unique_enum_combos [OF assms, of L] by blast
qed

theorem unique_enum_nonincreasing_witness:
  "\<exists>ys. unique_enum (PyInt 1) (PyInt 2) 2 = Some (ys, None)
     \<and> (\<forall>p\<in>set ys. \<forall>i. Suc i < length p \<longrightarrow> p ! Suc i \<le> p ! i)"
  by (rule unique_enum_nonincreasing) simp

text \<open>The claim as stated fails: \<open>unique_enum(1, 2, length=2)\<close> yields \<open>[2,1]\<close>, whose first
  element exceeds the next.\<close>

theorem unique_enum_yields_descent:
  "unique_enum (PyInt 1) (PyInt 2) 2 = Some ([[1, 1], [2, 1], [2, 2]], None)
   \<and> [2, 1] \<in> set [[1, 1], [2, 1], [2, 2 :: int]]
   \<and> \<not> [2, 1 :: int] ! 0 \<le> [2, 1] ! 1"
proof -
  have "unique_enum (PyInt 1) (PyInt 2) 2 = Some ([[1, 1], [2, 1], [2, 2]], None)"
    by code_simp
  then show ?thesis by simp
qed

text \<open>
  C6, as amended: \<open>unique_enum\<close> called with \<open>lower_bound > upper_bound\<close> fails with the
  invalid-argument error ("lower bound exceeds upper bound"), whatever the types of the
  bounds; called with \<open>lower_bound \<le> upper_bound\<close> and a non-integer bound it fails with the
  type error ("bounds must be integers"); either failure comes before the first yield.
\<close>

theorem unique_enum_errors:
  "(num_val lower_bound > num_val upper_bound
      \<longrightarrow> unique_enum lower_bound upper_bound len = Some ([], Some LowerExceedsUpper))
   \<and> (num_val lower_bound \<le> num_val upper_bound
        \<and> (\<not> isinstance_int lower_bound \<or> \<not> isinstance_int upper_bound)
      \<longrightarrow> unique_enum lower_bound upper_bound len = Some ([], Some BoundsNotInteger))"
  by (auto simp: unique_enum_def check_bounds_def)

theorem unique_enum_errors_witness:
  "unique_enum (PyInt 3) (PyInt 1) 3 = Some ([], Some LowerExceedsUpper)
   \<and> unique_enum (PyFloat (1 / 2)) (PyInt 2) 3 = Some ([], Some BoundsNotInteger)"
  using unique_enum_errors [where lower_bound = "PyInt 3" and upper_bound = "PyInt 1" and len = 3]
    unique_enum_errors [where lower_bound = "PyFloat (1 / 2)" and upper_bound = "PyInt 2"
      and len = 3]
  by simp

text \<open>The claim as stated fails: with the non-integer bounds \<open>2.5\<close> and \<open>1.5\<close> the first check
  fires, and the failure is the invalid-argument error, not the type error.\<close>

theorem unique_enum_float_bounds_reversed:
  "\<not> isinstance_int (PyFloat (5 / 2))
   \<and> unique_enum (PyFloat (5 / 2)) (PyFloat (3 / 2)) 3 = Some ([], Some LowerExceedsUpper)
   \<and> unique_enum (PyFloat (5 / 2)) (PyFloat (3 / 2)) 3 \<noteq> Some ([], Some BoundsNotInteger)"
  by (simp add: unique_enum_def check_bounds_def)

text \<open>
  C7, as amended: for every 3-element triplet \<open>t\<close> whose entries \<open>t[0]\<close> and \<open>t[2]\<close> and whose
  mean convert to floats, \<open>cubicity(t)\<close> is \<open>|m - t[0]| + |m - t[2]| + |m - t[2]|\<close> evaluated
  in double precision: \<open>m\<close> is the double nearest to \<open>(t[0]+t[1]+t[2])/3\<close>, and every
  difference and every sum is rounded to the nearest double (the element at index 1 is
  omitted, index 2 is counted twice). The result is non-negative; in particular
  \<open>cubicity([5,5,5]) = 0\<close> and \<open>cubicity([1,5,9]) = 12 > 3 = cubicity([4,5,6])\<close>.
\<close>

theorem cubicity_formula:
  assumes "length t = 3"
    and "\<bar>t ! 0\<bar> < float_int_limit" "\<bar>t ! 2\<bar> < float_int_limit"
    and "\<bar>fl (of_int (t ! 0 + t ! 1 + t ! 2) / 3)\<bar> < 2 ^ 1024"
  shows "\<exists>m c.
           m = fl (of_int (t ! 0 + t ! 1 + t ! 2) / 3)
           \<and> cubicity t = Inr c
           \<and> c = fadd (fadd (fabs (round_result (m - fl (of_int (t ! 0)))))
                             (fabs (round_result (m - fl (of_int (t ! 2))))))
                       (fabs (round_result (m - fl (of_int (t ! 2)))))
           \<and> is_nonneg c
           \<and> cubicity [5, 5, 5] = Inr (Finite 0)
           \<and> cubicity [1, 5, 9] = Inr (Finite 12)
           \<and> cubicity [4, 5, 6] = Inr (Finite 3)
           \<and> fless (Finite 3) (Finite 12)"
proof -
  obtain x y z where t: "t = [x, y, z]"
    using assms(1) by (auto simp: length_Suc_conv numeral_3_eq_3)
  define m where "m = fl (of_int (x + y + z) / 3)"
  have "\<not> 2 ^ 1024 \<le> \<bar>m\<bar>"
    using assms(4) by (simp add: t m_def)
  then have td: "true_divide (sum_list t) 3 = Inr m"
    unfolding true_divide_def Let_def by (simp add: t m_def add.assoc)
  have i: "int_to_float x = Inr (fl (of_int x))" "int_to_float z = Inr (fl (of_int z))"
    using assms(2,3) by (simp_all add: t int_to_float_def)
  have c: "cubicity t =
             Inr (fadd (fadd (fabs (round_result (m - fl (of_int x))))
                             (fabs (round_result (m - fl (of_int z)))))
                       (fabs (round_result (m - fl (of_int z)))))"
    using td i by (simp add: cubicity_def deviation_def fsub_def t)
  have "fl (fl (\<bar>fl (fl (of_int (5 + 5 + 5) / 3) - fl (of_int 5))\<bar>
                + \<bar>fl (fl (of_int (5 + 5 + 5) / 3) - fl (of_int 5))\<bar>)
            + \<bar>fl (fl (of_int (5 + 5 + 5) / 3) - fl (of_int 5))\<bar>) = 0"
    "fl (fl (\<bar>fl (fl (of_int (1 + 5 + 9) / 3) - fl (of_int 1))\<bar>
                + \<bar>fl (fl (of_int (1 + 5 + 9) / 3) - fl (of_int 9))\<bar>)
            + \<bar>fl (fl (of_int (1 + 5 + 9) / 3) - fl (of_int 9))\<bar>) = 12"
    "fl (fl (\<bar>fl (fl (of_int (4 + 5 + 6) / 3) - fl (of_int 4))\<bar>
                + \<bar>fl (fl (of_int (4 + 5 + 6) / 3) - fl (of_int 6))\<bar>)
            + \<bar>fl (fl (of_int (4 + 5 + 6) / 3) - fl (of_int 6))\<bar>) = 3"
    by code_simp+
  then have "cubicity [5, 5, 5] = Inr (Finite 0)" "cubicity [1, 5, 9] = Inr (Finite 12)"
    "cubicity [4, 5, 6] = Inr (Finite 3)"
    using cubicity_small [of 5 5 5] cubicity_small [of 1 5 9] cubicity_small [of 4 5 6]
    by simp_all
  then show ?thesis
    using c cubicity_nonneg [OF c] by (simp add: t m_def)
qed

theorem cubicity_formula_witness:
  "\<exists>m c.
     m = fl (of_int ([1, 5, 9] ! 0 + [1, 5, 9] ! 1 + [1, 5, 9] ! 2) / 3)
     \<and> cubicity [1, 5, 9] = Inr c
     \<and> c = fadd (fadd (fabs (round_result (m - fl (of_int ([1, 5, 9] ! 0)))))
                       (fabs (round_result (m - fl (of_int ([1, 5, 9] ! 2))))))
                 (fabs (round_result (m - fl (of_int ([1, 5, 9] ! 2)))))
     \<and> is_nonneg c
     \<and> cubicity [5, 5, 5] = Inr (Finite 0)
     \<and> cubicity [1, 5, 9] = Inr (Finite 12)
     \<and> cubicity [4, 5, 6] = Inr (Finite 3)
     \<and> fless (Finite 3) (Finite 12)"
proof (rule cubicity_formula)
  have "fl (of_int ([1, 5, 9] ! 0 + [1, 5, 9] ! 1 + [1, 5, 9] ! 2) / 3) = 5"
    by code_simp
  then show "\<bar>fl (of_int ([1, 5, 9] ! 0 + [1, 5, 9] ! 1 + [1, 5, 9] ! 2) / 3)\<bar> < 2 ^ 1024"
    by simp
qed (simp_all add: float_int_limit_def)

text \<open>The claim as stated fails. On \<open>[2^1024, 0, 0]\<close> the subtraction \<open>m - t[0]\<close> cannot
  convert \<open>t[0]\<close> to a float and \<open>cubicity\<close> raises \<open>OverflowError\<close>; on \<open>[1, 2, 4]\<close> the
  result is the double \<open>4.666666666666666\<close>, which is not the \<open>14/3\<close> of the formula.\<close>

theorem cubicity_overflow_and_rounding:
  "length [2 ^ 1024, 0, 0 :: int] = 3
   \<and> cubicity [2 ^ 1024, 0, 0] = Inl OverflowError
   \<and> cubicity [1, 2, 4] = Inr (Finite (2627099782632789 / 562949953421312))
   \<and> (2627099782632789 / 562949953421312 :: real) \<noteq> 14 / 3"
proof -
  have "deviation [2 ^ 1024, 0, 0] 0 = Inl OverflowError"
    by (simp add: deviation_def true_divide_def int_to_float_def float_int_limit_def Let_def)
  then have "cubicity [2 ^ 1024, 0, 0] = Inl OverflowError"
    by (simp add: cubicity_def)
  moreover have "fl (fl (\<bar>fl (fl (of_int (1 + 2 + 4) / 3) - fl (of_int 1))\<bar>
                + \<bar>fl (fl (of_int (1 + 2 + 4) / 3) - fl (of_int 4))\<bar>)
            + \<bar>fl (fl (of_int (1 + 2 + 4) / 3) - fl (of_int 4))\<bar>)
          = 2627099782632789 / 562949953421312"
    by code_simp
  then have "cubicity [1, 2, 4] = Inr (Finite (2627099782632789 / 562949953421312))"
    using cubicity_small [of 1 2 4] by simp
  ultimately show ?thesis by simp
qed



text \<open>
  C9, as amended: for every integer \<open>number\<close> with \<open>1 \<le> number < 2^1024 - 2^970\<close>, that is
  every positive integer that converts to a float, the bounds computed inside \<open>decompose\<close>
  satisfy \<open>0 \<le> lower \<le> upper\<close>, so the generator raises neither of its two errors and
  \<open>decompose\<close> returns a result. This does not rest on the last bit of the power: it holds
  for whatever value from 0 to \<open>2^344\<close> the power function delivers.
\<close>

theorem decompose_no_error:
  assumes "1 \<le> number" "number < float_int_limit"
  shows "(\<exists>x lower upper ys best.
            pow_third number = Inr x
            \<and> search_bounds (py_round x) = Inr (lower, upper)
            \<and> 0 \<le> lower \<and> lower \<le> upper
            \<and> unique_enum (PyInt lower) (PyInt upper) 3 = Some (ys, None)
            \<and> decompose number = Some (Inr best))
         \<and> (\<forall>x. 0 \<le> x \<and> x \<le> 2 ^ 344 \<longrightarrow>
              (\<exists>lower upper ys best.
                 search_bounds (py_round x) = Inr (lower, upper)
                 \<and> 0 \<le> lower \<and> lower \<le> upper
                 \<and> unique_enum (PyInt lower) (PyInt upper) 3 = Some (ys, None)
                 \<and> decompose_from x number = Some (Inr best)))"
proof -
  have g: "\<exists>lower upper ys best.
             search_bounds (py_round x) = Inr (lower, upper)
             \<and> 0 \<le> lower \<and> lower \<le> upper
             \<and> unique_enum (PyInt lower) (PyInt upper) 3 = Some (ys, None)
             \<and> decompose_from x number = Some (Inr best)"
    if "0 \<le> x" "x \<le> 2 ^ 344" for x
  proof -
    from decompose_from_total [OF that, of number]
    obtain lower upper mf me where s: "search_bounds (py_round x) = Inr (lower, upper)"
      "0 \<le> lower" "lower \<le> upper" "decompose_from x number = Some (Inr (mf, me))"
      by blast
    have "unique_enum (PyInt lower) (PyInt upper) 3 = Some (combos (nat 3) lower upper, None)"
      using s(3) by (rule unique_enum_combos)
    then show ?thesis using s by blast
  qed
  obtain x where x: "pow_third number = Inr x" "0 \<le> x" "x \<le> 2 ^ 344"
    using pow_third_bounded [of number] assms by auto
  then have "decompose number = decompose_from x number"
    by (simp add: decompose_def)
  then show ?thesis
    using g x by metis
qed

theorem decompose_no_error_witness:
  "(\<exists>x lower upper ys best.
      pow_third 8 = Inr x
      \<and> search_bounds (py_round x) = Inr (lower, upper)
      \<and> 0 \<le> lower \<and> lower \<le> upper
      \<and> unique_enum (PyInt lower) (PyInt upper) 3 = Some (ys, None)
      \<and> decompose 8 = Some (Inr best))
   \<and> (\<exists>lower upper ys best.
         search_bounds (py_round 2) = Inr (lower, upper)
         \<and> 0 \<le> lower \<and> lower \<le> upper
         \<and> unique_enum (PyInt lower) (PyInt upper) 3 = Some (ys, None)
         \<and> decompose_from 2 8 = Some (Inr best))"
proof -
  have "(8 :: int) < float_int_limit"
    by (simp add: float_int_limit_def)
  from decompose_no_error [of 8, OF _ this] show ?thesis
    by simp
qed

text \<open>The claim as stated fails: the positive integer \<open>2^1024\<close> does not convert to a float,
  and \<open>decompose\<close> raises \<open>OverflowError\<close> on it.\<close>

theorem decompose_overflow:
  "(1::int) \<le> 2 ^ 1024 \<and> decompose (2 ^ 1024) = Some (Inl OverflowError)"
  by (simp add: decompose_def pow_third_def int_to_float_def float_int_limit_def)

text \<open>
  C10: \<open>decompose(0)\<close> terminates normally and returns the triplet \<open>[0,0,0]\<close> with error 0;
  the power is \<open>0.0\<close> and the bound formulas give \<open>lower = 0\<close>, \<open>upper = 5\<close>.
\<close>

theorem decompose_zero:
  "decompose 0 = Some (Inr ([0, 0, 0], 0))
   \<and> pow_third 0 = Inr 0 \<and> search_bounds (py_round 0) = Inr (0, 5)"
proof -
  have r: "py_round 0 = 0"
    by (simp add: py_round_def)
  have b: "search_bounds 0 = Inr (0, 5)"
    using search_bounds_value(1) [of 0] by (simp add: fl_def r)
  have "\<forall>g\<in>set (combos 3 0 5). length g = 3 \<and> (\<forall>x\<in>set g. \<bar>x\<bar> \<le> 2 ^ 1000)"
    using combos_bounded [of _ 0 5] by simp
  then have "search_loop 0 (combos 3 0 5) ([0, 0, 0], 0) = Inr ([0, 0, 0], 0)"
    using cubicity_000 by (rule search_loop_perfect [rotated])
  then have "search 0 0 5 = Some (Inr ([0, 0, 0], 0))"
    using unique_enum_combos [of 0 5 3]
    by (simp add: search_def Let_def numeral_3_eq_3 del: combos.simps)
  then have "decompose 0 = Some (Inr ([0, 0, 0], 0))"
    by (simp add: decompose_def pow_third_0 decompose_from_def r b)
  then show ?thesis
    using pow_third_0 b by (simp only: r simp_thms)
qed

end
